theory Spec2Isabelle
  imports Main
begin

section \<open>The transport: requests and the response sink\<close>

text \<open>
  The package \<open>net/http\<close> is outside the repository. A request is reduced to the two
  fields the matching engine looks at. The response writer is the log of the calls made
  on it, in order: a handler receives the log and returns it extended. The call
  \<open>http.Error(w, msg, code)\<close> is one entry of the log, carrying its arguments.
\<close>

record Request =
  reqMethod :: string
  reqPath :: string

datatype response_call =
    ErrorCall string int
  | WriteHeader int
  | Write string

type_synonym ResponseWriter = "response_call list"

definition http_Error :: "ResponseWriter \<Rightarrow> string \<Rightarrow> int \<Rightarrow> ResponseWriter" where
  "http_Error w msg code = w @ [ErrorCall msg code]"

definition http_NotFound :: "ResponseWriter \<Rightarrow> Request \<Rightarrow> ResponseWriter" where
  "http_NotFound w r = http_Error w ''404 page not found'' 404"

section \<open>error.go\<close>

text \<open>
  A value of Go's interface \<open>error\<close> is either a \<open>*statusError\<close> (message, status), which
  has the method \<open>Status\<close>, or a value of some other error type, of which only the message
  is visible.
\<close>

datatype error =
    statusError string int
  | plainError string

fun error_Error :: "error \<Rightarrow> string" where
  "error_Error (statusError message status) = message"
| "error_Error (plainError message) = message"

text \<open>The type assertion \<open>err.(StatusError)\<close> followed by \<open>Status()\<close>; \<open>None\<close> when it fails.\<close>

fun Status :: "error \<Rightarrow> int option" where
  "Status (statusError message status) = Some status"
| "Status (plainError message) = None"

definition Error :: "int \<Rightarrow> string \<Rightarrow> error" where
  "Error status message = statusError message status"

section \<open>Handlers and the boundary adaptor\<close>

type_synonym Handler = "ResponseWriter \<Rightarrow> Request \<Rightarrow> ResponseWriter \<times> error option"

type_synonym http_Handler = "ResponseWriter \<Rightarrow> Request \<Rightarrow> ResponseWriter"

type_synonym Middleware = "Handler \<Rightarrow> Handler"

definition ErrorHandler :: "int \<Rightarrow> string \<Rightarrow> Handler" where
  "ErrorHandler code message = (\<lambda>w r. (w, Some (Error code message)))"

text \<open>
  \<open>adaptor\<close> of mux.go. The branch on the type assertion has no \<open>return\<close> and no \<open>else\<close>:
  control reaches the second \<open>http.Error\<close> whenever \<open>err\<close> is not nil.
\<close>

definition adaptor :: "Handler \<Rightarrow> http_Handler" where
  "adaptor next = (\<lambda>w r.
     case next w r of
       (w1, None) \<Rightarrow> w1
     | (w1, Some err) \<Rightarrow>
         (let w2 = (case Status err of
                      Some st \<Rightarrow> http_Error w1 (error_Error err) st
                    | None \<Rightarrow> w1)
          in http_Error w2 (error_Error err) 500))"

section \<open>Panics\<close>

datatype panic =
    IndexOutOfRange
  | NilDereference

section \<open>The matching engine\<close>

text \<open>
  Modelled from the spec: the delegated matching engine (\<open>github.com/go-chi/chi\<close>), which
  is not part of the repository. It keeps the registered routes and two separate hooks,
  one for a request whose path matches no pattern and one for a request whose path matches
  a pattern under another method. A pattern matches a path when they are equal; the
  engine's own validation of patterns is left out.
\<close>

record chi_Mux =
  routes :: "(string option \<times> string \<times> http_Handler) list"
  notFoundHandler :: "http_Handler option"
  methodNotAllowedHandler :: "http_Handler option"

definition chi_NewMux :: chi_Mux where
  "chi_NewMux = \<lparr>routes = [], notFoundHandler = None, methodNotAllowedHandler = None\<rparr>"

definition chi_Handle :: "chi_Mux \<Rightarrow> string \<Rightarrow> http_Handler \<Rightarrow> chi_Mux" where
  "chi_Handle eng pattern h = eng\<lparr>routes := routes eng @ [(None, pattern, h)]\<rparr>"

definition chi_Method :: "chi_Mux \<Rightarrow> string \<Rightarrow> string \<Rightarrow> http_Handler \<Rightarrow> chi_Mux" where
  "chi_Method eng method pattern h = eng\<lparr>routes := routes eng @ [(Some method, pattern, h)]\<rparr>"

definition chi_NotFound :: "chi_Mux \<Rightarrow> http_Handler \<Rightarrow> chi_Mux" where
  "chi_NotFound eng h = eng\<lparr>notFoundHandler := Some h\<rparr>"

definition chi_MethodNotAllowed :: "chi_Mux \<Rightarrow> http_Handler \<Rightarrow> chi_Mux" where
  "chi_MethodNotAllowed eng h = eng\<lparr>methodNotAllowedHandler := Some h\<rparr>"

definition chi_ServeHTTP :: "chi_Mux \<Rightarrow> http_Handler" where
  "chi_ServeHTTP eng = (\<lambda>w r.
     (let onPath = filter (\<lambda>(m, p, h). p = reqPath r) (routes eng) in
      case find (\<lambda>(m, p, h). m = None \<or> m = Some (reqMethod r)) onPath of
        Some (m, p, h) \<Rightarrow> h w r
      | None \<Rightarrow>
          (if onPath \<noteq> [] then
             (case methodNotAllowedHandler eng of
                Some h \<Rightarrow> h w r
              | None \<Rightarrow> w @ [WriteHeader 405])
           else
             (case notFoundHandler eng of
                Some h \<Rightarrow> h w r
              | None \<Rightarrow> http_NotFound w r))))"

section \<open>Slices and the store\<close>

text \<open>
  A Go slice is a pointer to a backing array, a length and a capacity; \<open>nil\<close> has no
  pointer. Backing arrays live in the store, addressed by their index in \<open>arrays\<close>; an
  element is a middleware or \<open>None\<close>, the nil function that fills a fresh array. Every
  slice of this package starts at the first element of its array, so no offset is kept.
  Allocations of size zero all return the same address, \<open>zerobase\<close>, as in the Go runtime.
  The store also holds the \<open>Mux\<close> objects and the engines that pointers refer to, and the
  runtime's policy for the capacity of a grown slice (given the old capacity and the
  length needed), which the language leaves open.
\<close>

record slice =
  ptr :: "nat option"
  len :: nat
  cap :: nat

definition nil_slice :: slice where
  "nil_slice = \<lparr>ptr = None, len = 0, cap = 0\<rparr>"

record 'mux store =
  arrays :: "Middleware option list list"
  growslice :: "nat \<Rightarrow> nat \<Rightarrow> nat"
  muxes :: "'mux list"
  engines :: "chi_Mux list"

definition zerobase :: nat where
  "zerobase = 0"

definition mallocgc :: "Middleware option list \<Rightarrow> 'mux store \<Rightarrow> nat \<times> 'mux store" where
  "mallocgc xs s =
     (if xs = [] then (zerobase, s)
      else (length (arrays s), s\<lparr>arrays := arrays s @ [xs]\<rparr>))"

text \<open>\<open>make([]Middleware, n, c)\<close>: a fresh array of \<open>c\<close> nil elements.\<close>

definition make_slice :: "nat \<Rightarrow> nat \<Rightarrow> 'mux store \<Rightarrow> slice \<times> 'mux store" where
  "make_slice n c s =
     (let (a, s') = mallocgc (replicate c None) s
      in (\<lparr>ptr = Some a, len = n, cap = c\<rparr>, s'))"

definition slice_contents :: "'mux store \<Rightarrow> slice \<Rightarrow> Middleware option list" where
  "slice_contents s sl =
     (case ptr sl of None \<Rightarrow> [] | Some a \<Rightarrow> take (len sl) (arrays s ! a))"

text \<open>The indexing expression \<open>sl[i]\<close>, checked against the length of the slice.\<close>

definition slice_index :: "'mux store \<Rightarrow> slice \<Rightarrow> nat \<Rightarrow> panic + Middleware option" where
  "slice_index s sl i =
     (if i < len sl then
        (case ptr sl of
           None \<Rightarrow> Inl NilDereference
         | Some a \<Rightarrow> Inr (arrays s ! a ! i))
      else Inl IndexOutOfRange)"

text \<open>Writing the elements \<open>xs\<close> into the array at address \<open>a\<close>, from index \<open>i\<close> on.\<close>

definition write_array :: "nat \<Rightarrow> nat \<Rightarrow> Middleware option list \<Rightarrow> 'mux store \<Rightarrow> 'mux store" where
  "write_array a i xs s =
     s\<lparr>arrays := (arrays s)[a := take i (arrays s ! a) @ xs @ drop (i + length xs) (arrays s ! a)]\<rparr>"

text \<open>
  The builtin \<open>append(sl, xs...)\<close>, with the elements of the second argument already read.
  Within the capacity the elements are written in place, behind the length of \<open>sl\<close>;
  otherwise a new array is allocated and the old one is left as it is.
\<close>

definition append_slice :: "slice \<Rightarrow> Middleware option list \<Rightarrow> 'mux store \<Rightarrow> slice \<times> 'mux store" where
  "append_slice sl xs s =
     (let n = len sl + length xs in
      if n \<le> cap sl then
        (case ptr sl of
           None \<Rightarrow> (sl, s)
         | Some a \<Rightarrow> (sl\<lparr>len := n\<rparr>, write_array a (len sl) xs s))
      else
        (let c = max n (growslice s (cap sl) n);
             (a, s') = mallocgc (slice_contents s sl @ xs @ replicate (c - n) None) s
         in (\<lparr>ptr = Some a, len = n, cap = c\<rparr>, s')))"

text \<open>The builtin \<open>copy(dst, src)\<close>.\<close>

definition copy_slice :: "slice \<Rightarrow> slice \<Rightarrow> 'mux store \<Rightarrow> 'mux store" where
  "copy_slice dst src s =
     (case ptr dst of
        None \<Rightarrow> s
      | Some a \<Rightarrow> write_array a 0 (take (min (len dst) (len src)) (slice_contents s src)) s)"

text \<open>
  The slice a caller's argument list \<open>f(x1, ..., xn)\<close> becomes for a variadic parameter:
  \<open>nil\<close> for no argument, a fresh array otherwise. A call \<open>f(xs...)\<close> passes \<open>xs\<close> itself.
\<close>

definition variadic :: "Middleware option list \<Rightarrow> 'mux store \<Rightarrow> slice \<times> 'mux store" where
  "variadic xs s =
     (if xs = [] then (nil_slice, s)
      else (let (a, s') = mallocgc xs s
            in (\<lparr>ptr = Some a, len = length xs, cap = length xs\<rparr>, s')))"

section \<open>middleware.go\<close>

record Chain =
  middlewares :: slice

definition NewChain :: "slice \<Rightarrow> Chain" where
  "NewChain mws =
     (if len mws = 0 then \<lparr>middlewares = \<lparr>ptr = Some zerobase, len = 0, cap = 0\<rparr>\<rparr>
      else \<lparr>middlewares = mws\<rparr>)"

text \<open>
  The loop of \<open>Then\<close>, \<open>for i := len(c.middlewares) - 1; i >= 0; i--\<close>, with the counter
  \<open>i + 1\<close> as the recursion argument. Calling a nil middleware panics.
\<close>

fun Then_loop :: "'mux store \<Rightarrow> slice \<Rightarrow> nat \<Rightarrow> Handler \<Rightarrow> panic + Handler" where
  "Then_loop s sl 0 h = Inr h"
| "Then_loop s sl (Suc i) h =
     (case slice_index s sl i of
        Inl p \<Rightarrow> Inl p
      | Inr None \<Rightarrow> Inl NilDereference
      | Inr (Some m) \<Rightarrow> Then_loop s sl i (m h))"

definition Then :: "Chain \<Rightarrow> Handler \<Rightarrow> 'mux store \<Rightarrow> panic + Handler" where
  "Then c h s =
     (if len (middlewares c) = 0 then Inr h
      else Then_loop s (middlewares c) (len (middlewares c)) h)"

definition Append :: "Chain \<Rightarrow> slice \<Rightarrow> 'mux store \<Rightarrow> Chain \<times> 'mux store" where
  "Append c mws s =
     (let (newCons, s1) = make_slice 0 (len (middlewares c) + len mws) s;
          (newCons1, s2) = append_slice newCons (slice_contents s1 (middlewares c)) s1;
          (newCons2, s3) = append_slice newCons1 (slice_contents s2 mws) s2
      in (\<lparr>middlewares = newCons2\<rparr>, s3))"

definition Extend :: "Chain \<Rightarrow> Chain \<Rightarrow> 'mux store \<Rightarrow> Chain \<times> 'mux store" where
  "Extend c chain s = Append c (middlewares chain) s"

section \<open>mux.go\<close>

text \<open>
  A \<open>*Mux\<close> is an address into \<open>muxes\<close>, the field \<open>chi\<close> an address into \<open>engines\<close>;
  \<open>None\<close> is the nil pointer. Dereferencing nil panics (so does an address outside the
  store, which no Go program can form).
\<close>

record Mux =
  chi :: "nat option"
  middlewares :: slice
  prefix :: string

type_synonym state = "Mux store"

definition deref_Mux :: "state \<Rightarrow> nat option \<Rightarrow> panic + Mux" where
  "deref_Mux s m =
     (case m of
        None \<Rightarrow> Inl NilDereference
      | Some a \<Rightarrow> if a < length (muxes s) then Inr (muxes s ! a) else Inl NilDereference)"

definition deref_chi :: "state \<Rightarrow> nat option \<Rightarrow> panic + chi_Mux" where
  "deref_chi s e =
     (case e of
        None \<Rightarrow> Inl NilDereference
      | Some a \<Rightarrow> if a < length (engines s) then Inr (engines s ! a) else Inl NilDereference)"

text \<open>Assignment through a pointer that has been dereferenced.\<close>

definition update_Mux :: "nat option \<Rightarrow> Mux \<Rightarrow> state \<Rightarrow> state" where
  "update_Mux m mux s =
     (case m of None \<Rightarrow> s | Some a \<Rightarrow> s\<lparr>muxes := (muxes s)[a := mux]\<rparr>)"

definition update_chi :: "nat option \<Rightarrow> chi_Mux \<Rightarrow> state \<Rightarrow> state" where
  "update_chi e eng s =
     (case e of None \<Rightarrow> s | Some a \<Rightarrow> s\<lparr>engines := (engines s)[a := eng]\<rparr>)"

definition new_Mux :: "Mux \<Rightarrow> state \<Rightarrow> nat option \<times> state" where
  "new_Mux mux s = (Some (length (muxes s)), s\<lparr>muxes := muxes s @ [mux]\<rparr>)"

definition NewMux :: "state \<Rightarrow> nat option \<times> state" where
  "NewMux s =
     (let e = length (engines s);
          s1 = s\<lparr>engines := engines s @ [chi_NewMux]\<rparr>
      in new_Mux \<lparr>chi = Some e,
                  middlewares = \<lparr>ptr = Some zerobase, len = 0, cap = 0\<rparr>,
                  prefix = []\<rparr> s1)"

definition Use :: "nat option \<Rightarrow> slice \<Rightarrow> state \<Rightarrow> panic + state" where
  "Use m mws s =
     (case deref_Mux s m of
        Inl p \<Rightarrow> Inl p
      | Inr mux \<Rightarrow>
          (let (sl, s1) = append_slice (middlewares mux) (slice_contents s mws) s
           in Inr (update_Mux m (mux\<lparr>middlewares := sl\<rparr>) s1)))"

definition With :: "nat option \<Rightarrow> slice \<Rightarrow> state \<Rightarrow> panic + (nat option \<times> state)" where
  "With m mws s =
     (case deref_Mux s m of
        Inl p \<Rightarrow> Inl p
      | Inr mux \<Rightarrow>
          (let (mws1, s1) = make_slice (len (middlewares mux)) (len (middlewares mux)) s;
               s2 = copy_slice mws1 (middlewares mux) s1;
               (mws2, s3) = append_slice mws1 (slice_contents s2 mws) s2
           in Inr (new_Mux \<lparr>chi = chi mux, middlewares = mws2, prefix = prefix mux\<rparr> s3)))"

text \<open>A callback \<open>func(*Mux)\<close> may change the store and may panic; \<open>None\<close> is the nil function.\<close>

type_synonym callback = "(nat option \<Rightarrow> state \<Rightarrow> panic + state) option"

definition Group :: "nat option \<Rightarrow> callback \<Rightarrow> state \<Rightarrow> panic + (nat option \<times> state)" where
  "Group m fn s =
     (case With m nil_slice s of
        Inl p \<Rightarrow> Inl p
      | Inr (im, s1) \<Rightarrow>
          (case fn of
             None \<Rightarrow> Inr (im, s1)
           | Some f \<Rightarrow>
               (case f im s1 of
                  Inl p \<Rightarrow> Inl p
                | Inr s2 \<Rightarrow> Inr (im, s2))))"

text \<open>
  \<open>Route\<close> reads \<open>pattern[len(pattern)-1]\<close> before anything else; on the empty string the
  index is out of range.
\<close>

definition Route :: "nat option \<Rightarrow> string \<Rightarrow> callback \<Rightarrow> state \<Rightarrow> panic + (nat option \<times> state)" where
  "Route m pattern fn s =
     (if pattern = [] then Inl IndexOutOfRange
      else
        (let pattern1 = (if last pattern \<noteq> CHR ''/'' then pattern @ ''/'' else pattern) in
         case With m nil_slice s of
           Inl p \<Rightarrow> Inl p
         | Inr (im, s1) \<Rightarrow>
             (case deref_Mux s1 im of
                Inl p \<Rightarrow> Inl p
              | Inr imux \<Rightarrow>
                  (let s2 = update_Mux im (imux\<lparr>prefix := prefix imux @ pattern1\<rparr>) s1 in
                   case fn of
                     None \<Rightarrow> Inr (im, s2)
                   | Some f \<Rightarrow>
                       (case f im s2 of
                          Inl p \<Rightarrow> Inl p
                        | Inr s3 \<Rightarrow> Inr (im, s3))))))"

definition Handle :: "nat option \<Rightarrow> string \<Rightarrow> Handler \<Rightarrow> state \<Rightarrow> panic + state" where
  "Handle m pattern handler s =
     (case deref_Mux s m of
        Inl p \<Rightarrow> Inl p
      | Inr mux \<Rightarrow>
          (case Then (NewChain (middlewares mux)) handler s of
             Inl p \<Rightarrow> Inl p
           | Inr h \<Rightarrow>
               (case deref_chi s (chi mux) of
                  Inl p \<Rightarrow> Inl p
                | Inr eng \<Rightarrow>
                    Inr (update_chi (chi mux)
                           (chi_Handle eng (prefix mux @ pattern) (adaptor h)) s))))"

definition Method :: "nat option \<Rightarrow> string \<Rightarrow> string \<Rightarrow> Handler \<Rightarrow> state \<Rightarrow> panic + state" where
  "Method m method pattern h s =
     (case deref_Mux s m of
        Inl p \<Rightarrow> Inl p
      | Inr mux \<Rightarrow>
          (case Then (NewChain (middlewares mux)) h s of
             Inl p \<Rightarrow> Inl p
           | Inr h1 \<Rightarrow>
               (case deref_chi s (chi mux) of
                  Inl p \<Rightarrow> Inl p
                | Inr eng \<Rightarrow>
                    Inr (update_chi (chi mux)
                           (chi_Method eng method (prefix mux @ pattern) (adaptor h1)) s))))"

definition NotFound :: "nat option \<Rightarrow> Handler \<Rightarrow> state \<Rightarrow> panic + state" where
  "NotFound m handlerFn s =
     (case deref_Mux s m of
        Inl p \<Rightarrow> Inl p
      | Inr mux \<Rightarrow>
          (case deref_chi s (chi mux) of
             Inl p \<Rightarrow> Inl p
           | Inr eng \<Rightarrow>
               Inr (update_chi (chi mux) (chi_NotFound eng (adaptor handlerFn)) s)))"

text \<open>As in the source, \<open>MethodNotAllowed\<close> calls the engine's \<open>NotFound\<close>.\<close>

definition MethodNotAllowed :: "nat option \<Rightarrow> Handler \<Rightarrow> state \<Rightarrow> panic + state" where
  "MethodNotAllowed m handlerFn s =
     (case deref_Mux s m of
        Inl p \<Rightarrow> Inl p
      | Inr mux \<Rightarrow>
          (case deref_chi s (chi mux) of
             Inl p \<Rightarrow> Inl p
           | Inr eng \<Rightarrow>
               Inr (update_chi (chi mux) (chi_NotFound eng (adaptor handlerFn)) s)))"

definition ServeHTTP :: "nat option \<Rightarrow> ResponseWriter \<Rightarrow> Request \<Rightarrow> state \<Rightarrow> panic + ResponseWriter" where
  "ServeHTTP m w r s =
     (case deref_Mux s m of
        Inl p \<Rightarrow> Inl p
      | Inr mux \<Rightarrow>
          (case deref_chi s (chi mux) of
             Inl p \<Rightarrow> Inl p
           | Inr eng \<Rightarrow> Inr (chi_ServeHTTP eng w r)))"

text \<open>The store a program starts from: nothing allocated but the zero-size object.\<close>

definition init_state :: "(nat \<Rightarrow> nat \<Rightarrow> nat) \<Rightarrow> state" where
  "init_state g = \<lparr>arrays = [[]], growslice = g, muxes = [], engines = []\<rparr>"

section \<open>Well-formed slices and observing middlewares\<close>

text \<open>
  What Go's memory safety guarantees of every slice value: its length is within its
  capacity; nil has capacity zero; a slice of capacity greater than zero points to an
  allocated array that holds at least that many elements. (The pointer of a slice of
  capacity zero is never followed.)
\<close>

definition wf_slice :: "'mux store \<Rightarrow> slice \<Rightarrow> bool" where
  "wf_slice s sl =
     (len sl \<le> cap sl \<and>
      (case ptr sl of
         None \<Rightarrow> cap sl = 0
       | Some a \<Rightarrow> cap sl = 0 \<or> (a < length (arrays s) \<and> cap sl \<le> length (arrays s ! a))))"

text \<open>
  A middleware that calls the next handler, once, after recording its tag on the sink;
  and a handler that records its tag and reports no failure.
\<close>

definition observer :: "string \<Rightarrow> Middleware" where
  "observer tag next = (\<lambda>w r. next (w @ [Write tag]) r)"

definition endpoint :: "string \<Rightarrow> Handler" where
  "endpoint tag = (\<lambda>w r. (w @ [Write tag], None))"

section \<open>Callers\<close>

text \<open>
  The callback of a nested call: inside \<open>Route(p1, func(im) { im.Route(p2, fn) })\<close> the
  function handed to the outer \<open>Route\<close> is \<open>sub_Route p2 fn\<close>. \<open>prefix_of\<close> reads the field
  \<open>prefix\<close> through a pointer.
\<close>

definition sub_Route :: "string \<Rightarrow> callback \<Rightarrow> callback" where
  "sub_Route pattern fn =
     Some (\<lambda>im s. case Route im pattern fn s of Inl p \<Rightarrow> Inl p | Inr (d, s') \<Rightarrow> Inr s')"

definition prefix_of :: "state \<Rightarrow> nat option \<Rightarrow> panic + string" where
  "prefix_of s m = (case deref_Mux s m of Inl p \<Rightarrow> Inl p | Inr mux \<Rightarrow> Inr (prefix mux))"

text \<open>
  The callback that registers a handler through the Mux it is given, and the patterns the
  engine of a Mux has received, in the order of registration.
\<close>

definition sub_Handle :: "string \<Rightarrow> Handler \<Rightarrow> callback" where
  "sub_Handle pattern h = Some (\<lambda>im s. Handle im pattern h s)"

definition registered_patterns :: "state \<Rightarrow> nat option \<Rightarrow> panic + string list" where
  "registered_patterns s m =
     (case deref_Mux s m of
        Inl p \<Rightarrow> Inl p
      | Inr mux \<Rightarrow>
          (case deref_chi s (chi mux) of
             Inl p \<Rightarrow> Inl p
           | Inr eng \<Rightarrow> Inr (map (\<lambda>(method, pattern, h). pattern) (routes eng))))"

text \<open>
  A store for trying the functions out: three argument slices holding one observer each,
  and a Mux on which \<open>Use\<close> has been called once, under a runtime that grows a slice to
  twice the length needed (\<open>demo_state_reached\<close> below).
\<close>

definition grow_double :: "nat \<Rightarrow> nat \<Rightarrow> nat" where
  "grow_double old n = 2 * n"

definition demo_state :: state where
  "demo_state =
     \<lparr>arrays = [[], [Some (observer ''a'')], [Some (observer ''b'')], [Some (observer ''c'')],
                [Some (observer ''a''), None]],
      growslice = grow_double,
      muxes = [\<lparr>chi = Some 0, middlewares = \<lparr>ptr = Some 4, len = 1, cap = 2\<rparr>, prefix = []\<rparr>],
      engines = [chi_NewMux]\<rparr>"

section \<open>The boundary adaptor\<close>

text \<open>
  C1. A handler that fails with a status error (status \<open>st\<close>, message \<open>msg\<close>) makes the
  adaptor call \<open>http.Error\<close> twice: first with \<open>st\<close>, then again with 500. The claim
  (exactly one response, no additional 500) does not hold of the code.
\<close>

theorem adaptor_status_error_writes_twice:
  "adaptor (ErrorHandler st msg) w r = w @ [ErrorCall msg st, ErrorCall msg 500]"
  by (simp add: adaptor_def ErrorHandler_def Error_def http_Error_def)

text \<open>
  C8. When the handler returns a failure without a status code, the adaptor adds one
  \<open>http.Error\<close> call with status 500 and the failure's message to what the handler wrote;
  when the handler returns no failure, the adaptor adds nothing.
\<close>

theorem adaptor_plain_failure_and_success:
  "(h w r = (w1, Some err) \<and> Status err = None \<longrightarrow>
      adaptor h w r = w1 @ [ErrorCall (error_Error err) 500]) \<and>
   (h w r = (w1, None) \<longrightarrow> adaptor h w r = w1)"
  by (simp add: adaptor_def http_Error_def)

theorem adaptor_plain_failure_and_success_witness:
  "((\<lambda>w r. (w @ [Write ''partial''], Some (plainError ''boom''))) []
        \<lparr>reqMethod = ''GET'', reqPath = ''/''\<rparr>
      = ([Write ''partial''], Some (plainError ''boom'')) \<and>
    Status (plainError ''boom'') = None \<and>
    adaptor (\<lambda>w r. (w @ [Write ''partial''], Some (plainError ''boom''))) []
        \<lparr>reqMethod = ''GET'', reqPath = ''/''\<rparr>
      = [Write ''partial'', ErrorCall ''boom'' 500]) \<and>
   (endpoint ''done'' [] \<lparr>reqMethod = ''GET'', reqPath = ''/''\<rparr> = ([Write ''done''], None) \<and>
    adaptor (endpoint ''done'') [] \<lparr>reqMethod = ''GET'', reqPath = ''/''\<rparr> = [Write ''done''])"
  using adaptor_plain_failure_and_success
          [of "\<lambda>w r. (w @ [Write ''partial''], Some (plainError ''boom''))" "[]"
              "\<lparr>reqMethod = ''GET'', reqPath = ''/''\<rparr>" "[Write ''partial'']" "plainError ''boom''"]
        adaptor_plain_failure_and_success
          [of "endpoint ''done''" "[]"
              "\<lparr>reqMethod = ''GET'', reqPath = ''/''\<rparr>" "[Write ''done'']" "plainError ''boom''"]
  by (simp add: endpoint_def)

section \<open>Reading a chain\<close>

lemma slice_index_frame:
  "(\<And>a. ptr sl = Some a \<Longrightarrow> arrays s' ! a = arrays s ! a) \<Longrightarrow>
   slice_index s' sl i = slice_index s sl i"
  by (simp add: slice_index_def split: option.splits)

lemma Then_loop_frame:
  "(\<And>a. ptr sl = Some a \<Longrightarrow> arrays s' ! a = arrays s ! a) \<Longrightarrow>
   Then_loop s' sl k h = Then_loop s sl k h"
proof (induction k arbitrary: h)
  case 0
  show ?case by simp
next
  case (Suc k)
  have "slice_index s' sl k = slice_index s sl k"
    using Suc.prems by (rule slice_index_frame)
  then show ?case
    using Suc.IH [OF Suc.prems] by (simp split: sum.splits option.splits)
qed

lemma Then_frame:
  "(\<And>a. ptr (Chain.middlewares c) = Some a \<Longrightarrow> arrays s' ! a = arrays s ! a) \<Longrightarrow>
   Then c h s' = Then c h s"
  using Then_loop_frame [of "Chain.middlewares c" s' s] by (simp add: Then_def)

lemma slice_index_contents:
  assumes "slice_contents s sl = map Some ms" and "len sl = length ms" and "i < length ms"
  shows "slice_index s sl i = Inr (Some (ms ! i))"
proof (cases "ptr sl")
  case None
  with assms show ?thesis by (simp add: slice_contents_def)
next
  case (Some a)
  with assms have eq: "take (length ms) (arrays s ! a) = map Some ms"
    by (simp add: slice_contents_def)
  have "arrays s ! a ! i = take (length ms) (arrays s ! a) ! i"
    using assms(3) by simp
  also have "\<dots> = Some (ms ! i)"
    using assms(3) by (simp add: eq)
  finally show ?thesis
    using Some assms by (simp add: slice_index_def)
qed

lemma Then_loop_contents:
  assumes "slice_contents s sl = map Some ms" and "len sl = length ms"
  shows "k \<le> length ms \<Longrightarrow> Then_loop s sl k h = Inr (foldr (\<lambda>m. m) (take k ms) h)"
proof (induction k arbitrary: h)
  case 0
  show ?case by simp
next
  case (Suc k)
  then have k: "k < length ms" by simp
  have idx: "slice_index s sl k = Inr (Some (ms ! k))"
    using assms k by (rule slice_index_contents)
  have "Then_loop s sl (Suc k) h = Then_loop s sl k ((ms ! k) h)"
    by (simp add: idx)
  also have "\<dots> = Inr (foldr (\<lambda>m. m) (take k ms) ((ms ! k) h))"
    using Suc.IH k by simp
  also have "\<dots> = Inr (foldr (\<lambda>m. m) (take (Suc k) ms) h)"
    using k by (simp add: take_Suc_conv_app_nth)
  finally show ?case .
qed

lemma Then_contents:
  assumes "slice_contents s (Chain.middlewares c) = map Some ms"
      and "len (Chain.middlewares c) = length ms"
  shows "Then c h s = Inr (foldr (\<lambda>m. m) ms h)"
  using Then_loop_contents [OF assms, of "length ms" h] assms(2)
  by (simp add: Then_def)

lemma variadic_contents:
  "variadic xs s = (sl, s1) \<Longrightarrow> slice_contents s1 sl = xs \<and> len sl = length xs"
  by (auto simp: variadic_def mallocgc_def slice_contents_def nil_slice_def Let_def
           split: if_splits)

lemma foldr_observer:
  "foldr (\<lambda>m. m) (map observer tags) h w r = h (w @ map Write tags) r"
  by (induction tags arbitrary: w) (simp_all add: observer_def)

lemma NewChain_Then_variadic:
  assumes "variadic (map Some ms) s = (sl, s1)"
  shows "Then (NewChain sl) h s1 = Inr (foldr (\<lambda>m. m) ms h)"
proof (cases "ms = []")
  case True
  with variadic_contents [OF assms] show ?thesis by (simp add: Then_def NewChain_def)
next
  case False
  have c: "slice_contents s1 sl = map Some ms" "len sl = length ms"
    using variadic_contents [OF assms] by simp_all
  with False have "NewChain sl = \<lparr>Chain.middlewares = sl\<rparr>"
    by (simp add: NewChain_def)
  with c show ?thesis by (simp add: Then_contents)
qed

text \<open>
  C3. For every chain whose slice holds the list \<open>[m1, ..., mn]\<close> (whatever its capacity),
  \<open>Then(h)\<close> returns the handler \<open>m1(m2(...mn(h)))\<close> without a panic, and so does \<open>Then\<close> on
  \<open>NewChain\<close> of that slice, the way \<open>Handle\<close> and \<open>Method\<close> call it. When every middleware
  records its tag and calls the next handler, invoking the composed handler records the
  tags in the order of the list, each once, and then the handler's own. The same holds of
  the chain built by \<open>NewChain(m1, ..., mn)\<close> from its arguments.
\<close>

theorem Then_composes_in_declaration_order:
  assumes "slice_contents s (Chain.middlewares c) = map Some ms"
      and "len (Chain.middlewares c) = length ms"
  shows "Then c h s = Inr (foldr (\<lambda>m. m) ms h) \<and>
         Then (NewChain (Chain.middlewares c)) h s = Inr (foldr (\<lambda>m. m) ms h) \<and>
         (ms = map observer tags \<longrightarrow>
            map_sum id (\<lambda>k. k w r) (Then c (endpoint t) s)
              = Inr (w @ map Write tags @ [Write t], None)) \<and>
         Then (NewChain (fst (variadic (map Some ms') s'))) h (snd (variadic (map Some ms') s'))
           = Inr (foldr (\<lambda>m. m) ms' h) \<and>
         map_sum id (\<lambda>k. k w r)
           (Then (NewChain (fst (variadic (map (Some \<circ> observer) tags') s'))) (endpoint t)
                 (snd (variadic (map (Some \<circ> observer) tags') s')))
           = Inr (w @ map Write tags' @ [Write t], None)"
proof -
  have a: "Then c h s = Inr (foldr (\<lambda>m. m) ms h)" for h
    using assms by (rule Then_contents)
  have b: "Then (NewChain (Chain.middlewares c)) h s = Inr (foldr (\<lambda>m. m) ms h)"
  proof (cases "ms = []")
    case True
    with assms(2) show ?thesis by (simp add: NewChain_def Then_def)
  next
    case False
    with assms(2) have "NewChain (Chain.middlewares c) = \<lparr>Chain.middlewares = Chain.middlewares c\<rparr>"
      by (simp add: NewChain_def)
    with assms show ?thesis by (simp add: Then_contents)
  qed
  have c: "map_sum id (\<lambda>k. k w r) (Then c (endpoint t) s)
             = Inr (w @ map Write tags @ [Write t], None)" if "ms = map observer tags"
    using a [of "endpoint t"] that by (simp add: foldr_observer endpoint_def)
  have 1: "Then (NewChain (fst (variadic (map Some ms) s))) h (snd (variadic (map Some ms) s))
     = Inr (foldr (\<lambda>m. m) ms h)" for ms h and s :: "'b store"
    by (rule NewChain_Then_variadic) simp
  have "map (Some \<circ> observer) tags' = map Some (map observer tags')" by simp
  then have d: "map_sum id (\<lambda>k. k w r)
           (Then (NewChain (fst (variadic (map (Some \<circ> observer) tags') s'))) (endpoint t)
                 (snd (variadic (map (Some \<circ> observer) tags') s')))
           = Inr (w @ map Write tags' @ [Write t], None)"
    using 1 [of "map observer tags'" s' "endpoint t"]
    by (simp add: foldr_observer endpoint_def del: map_map)
  show ?thesis
    using a [of h] b c 1 [of ms' s' h] d by blast
qed

theorem Then_composes_in_declaration_order_witness:
  "slice_contents
     \<lparr>arrays = [[], [Some (observer ''m1''), Some (observer ''m2''), None, None]],
      growslice = grow_double, muxes = [] :: Mux list, engines = []\<rparr>
     (Chain.middlewares \<lparr>Chain.middlewares = \<lparr>ptr = Some 1, len = 2, cap = 4\<rparr>\<rparr>)
     = map Some [observer ''m1'', observer ''m2''] \<and>
   len (Chain.middlewares \<lparr>Chain.middlewares = \<lparr>ptr = Some 1, len = 2, cap = 4\<rparr>\<rparr>)
     = length [observer ''m1'', observer ''m2''] \<and>
   [observer ''m1'', observer ''m2''] = map observer [''m1'', ''m2''] \<and>
   Then \<lparr>Chain.middlewares = \<lparr>ptr = Some 1, len = 2, cap = 4\<rparr>\<rparr> (endpoint ''h'')
     \<lparr>arrays = [[], [Some (observer ''m1''), Some (observer ''m2''), None, None]],
      growslice = grow_double, muxes = [] :: Mux list, engines = []\<rparr>
     = Inr (observer ''m1'' (observer ''m2'' (endpoint ''h''))) \<and>
   Then (NewChain \<lparr>ptr = Some 1, len = 2, cap = 4\<rparr>) (endpoint ''h'')
     \<lparr>arrays = [[], [Some (observer ''m1''), Some (observer ''m2''), None, None]],
      growslice = grow_double, muxes = [] :: Mux list, engines = []\<rparr>
     = Inr (observer ''m1'' (observer ''m2'' (endpoint ''h''))) \<and>
   map_sum id (\<lambda>k. k [] \<lparr>reqMethod = ''GET'', reqPath = ''/''\<rparr>)
     (Then \<lparr>Chain.middlewares = \<lparr>ptr = Some 1, len = 2, cap = 4\<rparr>\<rparr> (endpoint ''h'')
        \<lparr>arrays = [[], [Some (observer ''m1''), Some (observer ''m2''), None, None]],
         growslice = grow_double, muxes = [] :: Mux list, engines = []\<rparr>)
     = Inr ([Write ''m1'', Write ''m2'', Write ''h''], None) \<and>
   Then \<lparr>Chain.middlewares = \<lparr>ptr = Some 4, len = 1, cap = 2\<rparr>\<rparr> (endpoint ''h'') demo_state
     = Inr (observer ''a'' (endpoint ''h''))"
proof -
  let ?s = "\<lparr>arrays = [[], [Some (observer ''m1''), Some (observer ''m2''), None, None]],
             growslice = grow_double, muxes = [] :: Mux list, engines = []\<rparr>"
  let ?c = "\<lparr>Chain.middlewares = \<lparr>ptr = Some 1, len = 2, cap = 4\<rparr>\<rparr>"
  let ?d = "\<lparr>Chain.middlewares = \<lparr>ptr = Some 4, len = 1, cap = 2\<rparr>\<rparr>"
  have h1: "slice_contents ?s (Chain.middlewares ?c) = map Some [observer ''m1'', observer ''m2'']"
    by (simp add: slice_contents_def)
  have h2: "len (Chain.middlewares ?c) = length [observer ''m1'', observer ''m2'']"
    by simp
  have h3: "[observer ''m1'', observer ''m2''] = map observer [''m1'', ''m2'']"
    by simp
  have g1: "slice_contents demo_state (Chain.middlewares ?d) = map Some [observer ''a'']"
    by (simp add: slice_contents_def demo_state_def)
  have g2: "len (Chain.middlewares ?d) = length [observer ''a'']"
    by simp
  note T1 = Then_composes_in_declaration_order [OF h1 h2, where h = "endpoint ''h''"
      and tags = "[''m1'', ''m2'']" and w = "[]"
      and r = "\<lparr>reqMethod = ''GET'', reqPath = ''/''\<rparr>" and t = "''h''"
      and ms' = "[]" and tags' = "[]" and s' = ?s]
  note T2 = Then_composes_in_declaration_order [OF g1 g2, where h = "endpoint ''h''"
      and tags = "[''a'']" and w = "[]"
      and r = "\<lparr>reqMethod = ''GET'', reqPath = ''/''\<rparr>" and t = "''h''"
      and ms' = "[]" and tags' = "[]" and s' = ?s]
  have a: "Then ?c (endpoint ''h'') ?s
             = Inr (foldr (\<lambda>m. m) [observer ''m1'', observer ''m2''] (endpoint ''h''))"
    using T1 by (rule conjunct1)
  have b: "Then (NewChain (Chain.middlewares ?c)) (endpoint ''h'') ?s
             = Inr (foldr (\<lambda>m. m) [observer ''m1'', observer ''m2''] (endpoint ''h''))"
    using T1 by (elim conjE)
  have c: "map_sum id (\<lambda>k. k [] \<lparr>reqMethod = ''GET'', reqPath = ''/''\<rparr>) (Then ?c (endpoint ''h'') ?s)
             = Inr ([] @ map Write [''m1'', ''m2''] @ [Write ''h''], None)"
    using T1 h3 by (elim conjE impE)
  have d: "Then ?d (endpoint ''h'') demo_state
             = Inr (foldr (\<lambda>m. m) [observer ''a''] (endpoint ''h''))"
    using T2 by (rule conjunct1)
  have a': "Then ?c (endpoint ''h'') ?s = Inr (observer ''m1'' (observer ''m2'' (endpoint ''h'')))"
    using a by simp
  have b': "Then (NewChain \<lparr>ptr = Some 1, len = 2, cap = 4\<rparr>) (endpoint ''h'') ?s
              = Inr (observer ''m1'' (observer ''m2'' (endpoint ''h'')))"
    using b by simp
  have c': "map_sum id (\<lambda>k. k [] \<lparr>reqMethod = ''GET'', reqPath = ''/''\<rparr>) (Then ?c (endpoint ''h'') ?s)
             = Inr ([Write ''m1'', Write ''m2'', Write ''h''], None)"
    using c by simp
  have d': "Then ?d (endpoint ''h'') demo_state = Inr (observer ''a'' (endpoint ''h''))"
    using d by simp
  from h1 h2 h3 a' b' c' d' show ?thesis
    by (intro conjI)
qed

text \<open>
  C7. \<open>NewChain()\<close> receives the nil slice and returns a chain whose slice is empty and not
  nil; \<open>Then(h)\<close> on it, and on any chain whose slice has length zero, returns \<open>h\<close> itself.
\<close>

theorem NewChain_empty_Then_identity:
  "variadic [] s = (nil_slice, s) \<and>
   ptr (Chain.middlewares (NewChain nil_slice)) \<noteq> None \<and>
   len (Chain.middlewares (NewChain nil_slice)) = 0 \<and>
   slice_contents s (Chain.middlewares (NewChain nil_slice)) = [] \<and>
   Then (NewChain nil_slice) h s = Inr h \<and>
   Then (NewChain \<lparr>ptr = p, len = 0, cap = k\<rparr>) h s = Inr h \<and>
   Then \<lparr>Chain.middlewares = \<lparr>ptr = p, len = 0, cap = k\<rparr>\<rparr> h s = Inr h"
  by (simp add: variadic_def NewChain_def nil_slice_def Then_def slice_contents_def)

section \<open>Allocation and the existing arrays\<close>

lemma length_slice_contents:
  "wf_slice s sl \<Longrightarrow> length (slice_contents s sl) = len sl"
  by (auto simp: wf_slice_def slice_contents_def split: option.splits)

lemma slice_contents_extend:
  "wf_slice s sl \<Longrightarrow> slice_contents (s\<lparr>arrays := arrays s @ ys\<rparr>) sl = slice_contents s sl"
  by (auto simp: wf_slice_def slice_contents_def nth_append split: option.splits)

lemma wf_slice_extend:
  "wf_slice s sl \<Longrightarrow> wf_slice (s\<lparr>arrays := arrays s @ ys\<rparr>) sl"
  by (auto simp: wf_slice_def nth_append split: option.splits)

lemma Append_result:
  assumes c: "wf_slice s (Chain.middlewares c)" and m: "wf_slice s mws"
  shows "\<exists>c2 s'. Append c mws s = (c2, s') \<and>
           slice_contents s' (Chain.middlewares c2)
             = slice_contents s (Chain.middlewares c) @ slice_contents s mws \<and>
           len (Chain.middlewares c2) = len (Chain.middlewares c) + len mws \<and>
           take (length (arrays s)) (arrays s') = arrays s \<and>
           muxes s' = muxes s \<and> engines s' = engines s \<and> growslice s' = growslice s"
proof (cases "len (Chain.middlewares c) + len mws = 0")
  case True
  then have "slice_contents s (Chain.middlewares c) = []" "slice_contents s mws = []"
    using length_slice_contents [OF c] length_slice_contents [OF m] by simp_all
  with True show ?thesis
    by (simp add: Append_def make_slice_def mallocgc_def append_slice_def write_array_def
        slice_contents_def zerobase_def)
next
  case False
  define n where "n = len (Chain.middlewares c) + len mws"
  define xs where "xs = slice_contents s (Chain.middlewares c)"
  define ys where "ys = slice_contents s mws"
  have lx: "length xs = len (Chain.middlewares c)" and ly: "length ys = len mws"
    using length_slice_contents [OF c] length_slice_contents [OF m] by (simp_all add: xs_def ys_def)
  define s1 where "s1 = s\<lparr>arrays := arrays s @ [replicate n None]\<rparr>"
  have mk: "make_slice 0 n s = (\<lparr>ptr = Some (length (arrays s)), len = 0, cap = n\<rparr>, s1)"
    using False by (auto simp: make_slice_def mallocgc_def n_def s1_def)
  have x1: "slice_contents s1 (Chain.middlewares c) = xs"
    unfolding s1_def xs_def using c by (rule slice_contents_extend)
  define s2 where "s2 = s\<lparr>arrays := arrays s @ [xs @ replicate (n - length xs) None]\<rparr>"
  have a1: "append_slice \<lparr>ptr = Some (length (arrays s)), len = 0, cap = n\<rparr> xs s1
              = (\<lparr>ptr = Some (length (arrays s)), len = length xs, cap = n\<rparr>, s2)"
    using lx by (simp add: append_slice_def write_array_def s1_def s2_def n_def Let_def)
  have y2: "slice_contents s2 mws = ys"
    unfolding s2_def ys_def using m by (rule slice_contents_extend)
  define s3 where "s3 = s\<lparr>arrays := arrays s @ [xs @ ys]\<rparr>"
  have a2: "append_slice \<lparr>ptr = Some (length (arrays s)), len = length xs, cap = n\<rparr> ys s2
              = (\<lparr>ptr = Some (length (arrays s)), len = n, cap = n\<rparr>, s3)"
    using lx ly by (simp add: append_slice_def write_array_def s2_def s3_def n_def Let_def)
  have "Append c mws s = (\<lparr>Chain.middlewares = \<lparr>ptr = Some (length (arrays s)), len = n, cap = n\<rparr>\<rparr>, s3)"
    using mk a1 a2 x1 y2 by (simp add: Append_def n_def [symmetric])
  moreover have "slice_contents s3 \<lparr>ptr = Some (length (arrays s)), len = n, cap = n\<rparr> = xs @ ys"
    using lx ly by (simp add: slice_contents_def s3_def n_def)
  ultimately show ?thesis
    by (simp add: xs_def ys_def s3_def n_def)
qed

lemma nth_of_take_eq:
  "take (length A) B = A \<Longrightarrow> a < length A \<Longrightarrow> B ! a = A ! a"
  by (metis nth_take)

lemma slice_contents_preserved:
  assumes "wf_slice s sl" and "take (length (arrays s)) (arrays s') = arrays s"
  shows "slice_contents s' sl = slice_contents s sl"
proof (cases "cap sl = 0")
  case True
  with assms(1) show ?thesis by (simp add: wf_slice_def slice_contents_def split: option.splits)
next
  case False
  with assms show ?thesis
    by (auto simp: wf_slice_def slice_contents_def nth_of_take_eq split: option.splits)
qed

lemma Then_preserved:
  assumes "wf_slice s (Chain.middlewares c)"
      and "take (length (arrays s)) (arrays s') = arrays s"
  shows "Then c h s' = Then c h s"
proof (cases "cap (Chain.middlewares c) = 0")
  case True
  with assms(1) show ?thesis by (simp add: wf_slice_def Then_def)
next
  case False
  with assms have "arrays s' ! a = arrays s ! a" if "ptr (Chain.middlewares c) = Some a" for a
    using that by (auto simp: wf_slice_def nth_of_take_eq)
  then show ?thesis by (rule Then_frame)
qed

text \<open>
  C6. For a chain \<open>c\<close> and an argument slice \<open>mws\<close>, \<open>c.Append(mws...)\<close> returns a chain
  holding the list of \<open>c\<close> followed by the elements of \<open>mws\<close>; no array that existed before
  is changed, so \<open>c\<close> holds the same list and \<open>c.Then(h)\<close> is the same handler as before;
  and \<open>c.Extend(d)\<close> is \<open>c.Append\<close> of the slice of \<open>d\<close>.
\<close>

theorem Append_concatenates_and_leaves_receiver:
  assumes "wf_slice s (Chain.middlewares c)" and "wf_slice s mws"
  shows "slice_contents (snd (Append c mws s)) (Chain.middlewares (fst (Append c mws s)))
           = slice_contents s (Chain.middlewares c) @ slice_contents s mws \<and>
         slice_contents (snd (Append c mws s)) (Chain.middlewares c)
           = slice_contents s (Chain.middlewares c) \<and>
         take (length (arrays s)) (arrays (snd (Append c mws s))) = arrays s \<and>
         Then c h (snd (Append c mws s)) = Then c h s \<and>
         Extend c d s = Append c (Chain.middlewares d) s"
proof -
  obtain c2 s' where r: "Append c mws s = (c2, s')"
    and 1: "slice_contents s' (Chain.middlewares c2)
             = slice_contents s (Chain.middlewares c) @ slice_contents s mws"
    and 2: "take (length (arrays s)) (arrays s') = arrays s"
    using Append_result [OF assms] by blast
  have 3: "slice_contents s' (Chain.middlewares c) = slice_contents s (Chain.middlewares c)"
    using assms(1) 2 by (rule slice_contents_preserved)
  have 4: "Then c h s' = Then c h s"
    using assms(1) 2 by (rule Then_preserved)
  show ?thesis
    using r 1 2 3 4 by (simp add: Extend_def)
qed

theorem Append_concatenates_and_leaves_receiver_witness:
  "wf_slice \<lparr>arrays = [[], [Some (observer ''m1''), Some (observer ''m2'')], [Some (observer ''m3'')]],
             growslice = (\<lambda>old n. 2 * n), muxes = [] :: Mux list, engines = []\<rparr>
            (Chain.middlewares \<lparr>Chain.middlewares = \<lparr>ptr = Some 1, len = 2, cap = 2\<rparr>\<rparr>) \<and>
   wf_slice \<lparr>arrays = [[], [Some (observer ''m1''), Some (observer ''m2'')], [Some (observer ''m3'')]],
             growslice = (\<lambda>old n. 2 * n), muxes = [] :: Mux list, engines = []\<rparr>
            \<lparr>ptr = Some 2, len = 1, cap = 1\<rparr> \<and>
   slice_contents
     (snd (Append \<lparr>Chain.middlewares = \<lparr>ptr = Some 1, len = 2, cap = 2\<rparr>\<rparr> \<lparr>ptr = Some 2, len = 1, cap = 1\<rparr>
        \<lparr>arrays = [[], [Some (observer ''m1''), Some (observer ''m2'')], [Some (observer ''m3'')]],
         growslice = (\<lambda>old n. 2 * n), muxes = [] :: Mux list, engines = []\<rparr>))
     (Chain.middlewares
       (fst (Append \<lparr>Chain.middlewares = \<lparr>ptr = Some 1, len = 2, cap = 2\<rparr>\<rparr> \<lparr>ptr = Some 2, len = 1, cap = 1\<rparr>
        \<lparr>arrays = [[], [Some (observer ''m1''), Some (observer ''m2'')], [Some (observer ''m3'')]],
         growslice = (\<lambda>old n. 2 * n), muxes = [] :: Mux list, engines = []\<rparr>)))
     = [Some (observer ''m1''), Some (observer ''m2''), Some (observer ''m3'')] \<and>
   map_sum id (\<lambda>k. k [] \<lparr>reqMethod = ''GET'', reqPath = ''/''\<rparr>)
     (Then \<lparr>Chain.middlewares = \<lparr>ptr = Some 1, len = 2, cap = 2\<rparr>\<rparr> (endpoint ''h'')
       (snd (Append \<lparr>Chain.middlewares = \<lparr>ptr = Some 1, len = 2, cap = 2\<rparr>\<rparr> \<lparr>ptr = Some 2, len = 1, cap = 1\<rparr>
        \<lparr>arrays = [[], [Some (observer ''m1''), Some (observer ''m2'')], [Some (observer ''m3'')]],
         growslice = (\<lambda>old n. 2 * n), muxes = [] :: Mux list, engines = []\<rparr>)))
     = Inr ([Write ''m1'', Write ''m2'', Write ''h''], None)"
proof -
  let ?s = "\<lparr>arrays = [[], [Some (observer ''m1''), Some (observer ''m2'')], [Some (observer ''m3'')]],
             growslice = (\<lambda>old n. 2 * n), muxes = [] :: Mux list, engines = []\<rparr>"
  let ?c = "\<lparr>Chain.middlewares = \<lparr>ptr = Some 1, len = 2, cap = 2\<rparr>\<rparr>"
  let ?m = "\<lparr>ptr = Some 2, len = 1, cap = 1\<rparr>"
  have h1: "wf_slice ?s (Chain.middlewares ?c)" by (simp add: wf_slice_def)
  have h2: "wf_slice ?s ?m" by (simp add: wf_slice_def)
  have t: "Then ?c (endpoint ''h'') ?s = Inr (observer ''m1'' (observer ''m2'' (endpoint ''h'')))"
    by (simp add: Then_def slice_index_def numeral_2_eq_2)
  have c: "slice_contents ?s (Chain.middlewares ?c) = [Some (observer ''m1''), Some (observer ''m2'')]"
          "slice_contents ?s ?m = [Some (observer ''m3'')]"
    by (simp_all add: slice_contents_def)
  show ?thesis
    using h1 h2 Append_concatenates_and_leaves_receiver [OF h1 h2, of "endpoint ''h''"] t c
    by (simp add: observer_def endpoint_def)
qed

section \<open>Deriving a Mux\<close>

lemma write_array_nothing: "write_array a i [] s = s"
  by (simp add: write_array_def)

lemma slice_contents_len0 [simp]:
  "slice_contents s \<lparr>ptr = p, len = 0, cap = c\<rparr> = []"
  by (simp add: slice_contents_def split: option.splits)

lemma slice_contents_fresh:
  "length xs = n \<Longrightarrow>
   slice_contents (s\<lparr>arrays := A @ [xs]\<rparr>) \<lparr>ptr = Some (length A), len = n, cap = c\<rparr> = xs"
  by (simp add: slice_contents_def)

lemma make_slice_zero:
  "make_slice n 0 s = (\<lparr>ptr = Some zerobase, len = n, cap = 0\<rparr>, s)"
  by (simp add: make_slice_def mallocgc_def)

lemma make_slice_pos:
  "0 < c \<Longrightarrow> make_slice n c s =
     (\<lparr>ptr = Some (length (arrays s)), len = n, cap = c\<rparr>,
      s\<lparr>arrays := arrays s @ [replicate c None]\<rparr>)"
  by (simp add: make_slice_def mallocgc_def)

lemma copy_slice_empty: "len dst = 0 \<Longrightarrow> copy_slice dst src s = s"
  by (simp add: copy_slice_def write_array_nothing split: option.splits)

lemma copy_slice_fresh:
  assumes "slice_contents (s\<lparr>arrays := A @ [replicate n None]\<rparr>) src = xs"
      and "length xs = n" and "len src = n"
  shows "copy_slice \<lparr>ptr = Some (length A), len = n, cap = n\<rparr> src
           (s\<lparr>arrays := A @ [replicate n None]\<rparr>) = s\<lparr>arrays := A @ [xs]\<rparr>"
  using assms by (simp add: copy_slice_def write_array_def)

lemma append_slice_nothing: "len sl \<le> cap sl \<Longrightarrow> append_slice sl [] s = (sl, s)"
  by (simp add: append_slice_def write_array_nothing Let_def split: option.splits)

lemma append_slice_grow:
  assumes "cap sl < len sl + length xs" and "xs \<noteq> []"
  shows "append_slice sl xs s =
     (\<lparr>ptr = Some (length (arrays s)), len = len sl + length xs,
        cap = max (len sl + length xs) (growslice s (cap sl) (len sl + length xs))\<rparr>,
      s\<lparr>arrays := arrays s @
          [slice_contents s sl @ xs @
           replicate (max (len sl + length xs) (growslice s (cap sl) (len sl + length xs))
                      - (len sl + length xs)) None]\<rparr>)"
  using assms by (simp add: append_slice_def mallocgc_def Let_def)

lemma append_slice_in_place:
  assumes "len sl + length xs \<le> cap sl" and "ptr sl = Some a"
  shows "append_slice sl xs s = (sl\<lparr>len := len sl + length xs\<rparr>, write_array a (len sl) xs s)"
  using assms by (simp add: append_slice_def Let_def)

lemma With_result:
  assumes d: "deref_Mux s m = Inr mux"
      and wm: "wf_slice s (middlewares mux)" and wx: "wf_slice s x"
  shows "\<exists>dm s1. With m x s = Inr (Some (length (muxes s)), s1) \<and>
           muxes s1 = muxes s @ [dm] \<and> chi dm = chi mux \<and> prefix dm = prefix mux \<and>
           slice_contents s1 (middlewares dm)
             = slice_contents s (middlewares mux) @ slice_contents s x \<and>
           len (middlewares dm) = len (middlewares mux) + len x \<and>
           wf_slice s1 (middlewares dm) \<and>
           (len (middlewares dm) = 0 \<longrightarrow> cap (middlewares dm) = 0) \<and>
           (cap (middlewares dm) = 0 \<or> (\<exists>a. ptr (middlewares dm) = Some a \<and> length (arrays s) \<le> a)) \<and>
           take (length (arrays s)) (arrays s1) = arrays s \<and>
           engines s1 = engines s \<and> growslice s1 = growslice s"
proof -
  define n where "n = len (middlewares mux)"
  define k where "k = len x"
  define xs where "xs = slice_contents s (middlewares mux)"
  define ys where "ys = slice_contents s x"
  define L where "L = length (arrays s)"
  have lx: "length xs = n" and ly: "length ys = k"
    using length_slice_contents [OF wm] length_slice_contents [OF wx]
    by (simp_all add: xs_def ys_def n_def k_def)
  have ext: "slice_contents (s\<lparr>arrays := arrays s @ zs\<rparr>) (middlewares mux) = xs"
            "slice_contents (s\<lparr>arrays := arrays s @ zs\<rparr>) x = ys" for zs
    using slice_contents_extend [OF wm] slice_contents_extend [OF wx]
    by (simp_all add: xs_def ys_def)
  have unfold: "With m x s = Inr (new_Mux \<lparr>chi = chi mux, middlewares = sl2, prefix = prefix mux\<rparr> s3)"
    if "make_slice n n s = (sl1, s1)" and "copy_slice sl1 (middlewares mux) s1 = s2"
      and "append_slice sl1 (slice_contents s2 x) s2 = (sl2, s3)" for sl1 s1 s2 sl2 s3
    using that d by (simp add: With_def n_def)
  show ?thesis
  proof (cases "n = 0")
    case True
    have mk: "make_slice n n s = (\<lparr>ptr = Some zerobase, len = 0, cap = 0\<rparr>, s)"
      using True by (simp add: make_slice_zero)
    have cp: "copy_slice \<lparr>ptr = Some zerobase, len = 0, cap = 0\<rparr> (middlewares mux) s = s"
      by (simp add: copy_slice_empty)
    show ?thesis
    proof (cases "k = 0")
      case True
      then have "ys = []" using ly by simp
      then have ap: "append_slice \<lparr>ptr = Some zerobase, len = 0, cap = 0\<rparr> (slice_contents s x) s
                  = (\<lparr>ptr = Some zerobase, len = 0, cap = 0\<rparr>, s)"
        by (simp add: ys_def [symmetric] append_slice_nothing)
      have "slice_contents s' \<lparr>ptr = Some zerobase, len = 0, cap = 0\<rparr> = []" for s' :: state
        by (simp add: slice_contents_def)
      then show ?thesis
        using unfold [OF mk cp ap] \<open>n = 0\<close> \<open>k = 0\<close> \<open>ys = []\<close> lx
        by (simp add: new_Mux_def wf_slice_def xs_def [symmetric] ys_def [symmetric]
            n_def [symmetric] k_def [symmetric])
    next
      case False
      then have ne: "ys \<noteq> []" using ly by auto
      define c where "c = max k (growslice s 0 k)"
      have ap: "append_slice \<lparr>ptr = Some zerobase, len = 0, cap = 0\<rparr> (slice_contents s x) s
                  = (\<lparr>ptr = Some L, len = k, cap = c\<rparr>,
                     s\<lparr>arrays := arrays s @ [ys @ replicate (c - k) None]\<rparr>)"
        using False ne ly
        by (simp add: ys_def [symmetric] append_slice_grow c_def L_def)
      have "slice_contents (s\<lparr>arrays := arrays s @ [ys @ zs], muxes := M\<rparr>) \<lparr>ptr = Some L, len = k, cap = c\<rparr> = ys"
        for zs M using ly by (simp add: slice_contents_def L_def)
      then show ?thesis
        using unfold [OF mk cp ap] \<open>n = 0\<close> False lx ly
        by (simp add: new_Mux_def wf_slice_def xs_def [symmetric] ys_def [symmetric]
            n_def [symmetric] k_def [symmetric] L_def c_def)
    qed
  next
    case False
    have mk: "make_slice n n s = (\<lparr>ptr = Some L, len = n, cap = n\<rparr>,
                s\<lparr>arrays := arrays s @ [replicate n None]\<rparr>)"
      using False by (simp add: make_slice_pos L_def)
    have cp: "copy_slice \<lparr>ptr = Some L, len = n, cap = n\<rparr> (middlewares mux)
                (s\<lparr>arrays := arrays s @ [replicate n None]\<rparr>) = s\<lparr>arrays := arrays s @ [xs]\<rparr>"
      unfolding L_def by (rule copy_slice_fresh) (simp_all add: ext lx n_def)
    show ?thesis
    proof (cases "k = 0")
      case True
      then have "ys = []" using ly by simp
      then have ap: "append_slice \<lparr>ptr = Some L, len = n, cap = n\<rparr>
                    (slice_contents (s\<lparr>arrays := arrays s @ [xs]\<rparr>) x) (s\<lparr>arrays := arrays s @ [xs]\<rparr>)
                  = (\<lparr>ptr = Some L, len = n, cap = n\<rparr>, s\<lparr>arrays := arrays s @ [xs]\<rparr>)"
        by (simp add: ext append_slice_nothing)
      have "slice_contents (s\<lparr>arrays := arrays s @ [xs], muxes := M\<rparr>) \<lparr>ptr = Some L, len = n, cap = n\<rparr> = xs"
        for M using lx by (simp add: slice_contents_def L_def)
      then show ?thesis
        using unfold [OF mk cp ap] \<open>n \<noteq> 0\<close> True lx ly \<open>ys = []\<close>
        by (simp add: new_Mux_def wf_slice_def xs_def [symmetric] ys_def [symmetric]
            n_def [symmetric] k_def [symmetric] L_def)
    next
      case False
      then have ne: "ys \<noteq> []" using ly by auto
      define c where "c = max (n + k) (growslice s n (n + k))"
      have ap: "append_slice \<lparr>ptr = Some L, len = n, cap = n\<rparr>
                    (slice_contents (s\<lparr>arrays := arrays s @ [xs]\<rparr>) x) (s\<lparr>arrays := arrays s @ [xs]\<rparr>)
                  = (\<lparr>ptr = Some (Suc L), len = n + k, cap = c\<rparr>,
                     s\<lparr>arrays := arrays s @ [xs, xs @ ys @ replicate (c - (n + k)) None]\<rparr>)"
        using False ne ly lx slice_contents_fresh [of xs n "arrays s" s n]
        by (simp add: ext append_slice_grow c_def L_def)
      have "slice_contents (s\<lparr>arrays := arrays s @ [xs, xs @ ys @ zs], muxes := M\<rparr>)
              \<lparr>ptr = Some (Suc L), len = n + k, cap = c\<rparr> = xs @ ys"
        for zs M using lx ly by (simp add: slice_contents_def L_def nth_append)
      then show ?thesis
        using unfold [OF mk cp ap] \<open>n \<noteq> 0\<close> False lx ly
        by (simp add: new_Mux_def wf_slice_def xs_def [symmetric] ys_def [symmetric]
            n_def [symmetric] k_def [symmetric] L_def c_def nth_append)
    qed
  qed
qed

lemma deref_Mux_Inr:
  "deref_Mux s m = Inr mux \<longleftrightarrow> (\<exists>a. m = Some a \<and> a < length (muxes s) \<and> muxes s ! a = mux)"
  by (auto simp: deref_Mux_def split: option.splits)

lemma deref_Mux_Inl: "deref_Mux s m = Inl p \<Longrightarrow> p = NilDereference"
  by (auto simp: deref_Mux_def split: option.splits if_splits)

lemma deref_Mux_old:
  "deref_Mux s m = Inr mux \<Longrightarrow> muxes s1 = muxes s @ ms \<Longrightarrow> deref_Mux s1 m = Inr mux"
  by (auto simp: deref_Mux_Inr nth_append)

lemma deref_Mux_new:
  "muxes s1 = muxes s @ [dm] \<Longrightarrow> deref_Mux s1 (Some (length (muxes s))) = Inr dm"
  by (simp add: deref_Mux_Inr)

lemma wf_nil_slice: "wf_slice s nil_slice"
  by (simp add: wf_slice_def nil_slice_def)

lemma contents_nil_slice: "slice_contents s nil_slice = []"
  by (simp add: slice_contents_def nil_slice_def)

lemma Group_nil: "Group m None s = With m nil_slice s"
  by (simp add: Group_def split: sum.splits)

lemma Group_callback:
  "Group m (Some f) s =
     (case Group m None s of
        Inl p \<Rightarrow> Inl p
      | Inr (d, s1) \<Rightarrow> (case f d s1 of Inl p \<Rightarrow> Inl p | Inr s2 \<Rightarrow> Inr (d, s2)))"
  by (simp add: Group_def split: sum.splits)

lemma Route_callback:
  "Route m p (Some f) s =
     (case Route m p None s of
        Inl e \<Rightarrow> Inl e
      | Inr (d, s1) \<Rightarrow> (case f d s1 of Inl e \<Rightarrow> Inl e | Inr s2 \<Rightarrow> Inr (d, s2)))"
  by (simp add: Route_def Let_def split: sum.splits)

lemma Route_result:
  assumes d: "deref_Mux s m = Inr mux" and wm: "wf_slice s (middlewares mux)" and p: "p \<noteq> []"
  shows "\<exists>dm s1. Route m p None s = Inr (Some (length (muxes s)), s1) \<and>
           muxes s1 = muxes s @ [dm] \<and> chi dm = chi mux \<and>
           prefix dm = prefix mux @ (if last p \<noteq> CHR ''/'' then p @ ''/'' else p) \<and>
           slice_contents s1 (middlewares dm) = slice_contents s (middlewares mux) \<and>
           len (middlewares dm) = len (middlewares mux) \<and>
           wf_slice s1 (middlewares dm) \<and>
           (len (middlewares dm) = 0 \<longrightarrow> cap (middlewares dm) = 0) \<and>
           (cap (middlewares dm) = 0 \<or> (\<exists>a. ptr (middlewares dm) = Some a \<and> length (arrays s) \<le> a)) \<and>
           take (length (arrays s)) (arrays s1) = arrays s \<and>
           engines s1 = engines s \<and> growslice s1 = growslice s"
proof -
  obtain dm s1 where w: "With m nil_slice s = Inr (Some (length (muxes s)), s1)"
    and m1: "muxes s1 = muxes s @ [dm]" and rest: "chi dm = chi mux" "prefix dm = prefix mux"
      "slice_contents s1 (middlewares dm) = slice_contents s (middlewares mux) @ slice_contents s nil_slice"
      "len (middlewares dm) = len (middlewares mux) + len nil_slice"
      "wf_slice s1 (middlewares dm)"
      "len (middlewares dm) = 0 \<longrightarrow> cap (middlewares dm) = 0"
      "cap (middlewares dm) = 0 \<or> (\<exists>a. ptr (middlewares dm) = Some a \<and> length (arrays s) \<le> a)"
      "take (length (arrays s)) (arrays s1) = arrays s"
      "engines s1 = engines s" "growslice s1 = growslice s"
    using With_result [OF d wm wf_nil_slice] by (elim exE conjE) (rule that; assumption)
  define pn where "pn = (if last p \<noteq> CHR ''/'' then p @ ''/'' else p)"
  define dm' where "dm' = dm\<lparr>prefix := prefix dm @ pn\<rparr>"
  define s2 where "s2 = update_Mux (Some (length (muxes s))) dm' s1"
  have dd: "deref_Mux s1 (Some (length (muxes s))) = Inr dm"
    using m1 by (rule deref_Mux_new)
  have r: "Route m p None s = Inr (Some (length (muxes s)), s2)"
    using p w dd by (simp add: Route_def s2_def dm'_def pn_def Let_def)
  have m2: "muxes s2 = muxes s @ [dm']"
    using m1 by (simp add: s2_def update_Mux_def)
  have a2: "arrays s2 = arrays s1" "engines s2 = engines s1" "growslice s2 = growslice s1"
    by (simp_all add: s2_def update_Mux_def)
  have c2: "slice_contents s2 sl = slice_contents s1 sl" "wf_slice s2 sl = wf_slice s1 sl" for sl
    by (simp_all add: slice_contents_def wf_slice_def a2 cong: option.case_cong)
  show ?thesis
    using r m2 rest a2 c2
    by (simp add: dm'_def pn_def contents_nil_slice nil_slice_def)
qed

lemma demo_state_reached:
  "(let (xa, s1) = variadic [Some (observer ''a'')] (init_state grow_double);
        (xb, s2) = variadic [Some (observer ''b'')] s1;
        (xc, s3) = variadic [Some (observer ''c'')] s2;
        (m, s4) = NewMux s3
    in (xa, xb, xc, m, Use m xa s4))
   = (\<lparr>ptr = Some 1, len = 1, cap = 1\<rparr>, \<lparr>ptr = Some 2, len = 1, cap = 1\<rparr>,
      \<lparr>ptr = Some 3, len = 1, cap = 1\<rparr>, Some 0, Inr demo_state)"
  by (simp add: variadic_def mallocgc_def init_state_def NewMux_def new_Mux_def Use_def
      deref_Mux_def append_slice_def slice_contents_def zerobase_def grow_double_def
      update_Mux_def demo_state_def Let_def)

text \<open>
  C9. \<open>Route\<close> with the empty pattern panics with an index out of range, whatever the
  receiver, the callback and the store; with a pattern that is not empty (and a nil
  callback) it never does.
\<close>

theorem Route_empty_pattern_panics:
  "Route m [] fn s = Inl IndexOutOfRange \<and>
   (pattern \<noteq> [] \<longrightarrow> Route m pattern None s \<noteq> Inl IndexOutOfRange)"
  by (auto simp: Route_def With_def Let_def new_Mux_def
           split: sum.splits prod.splits dest: deref_Mux_Inl)

theorem Route_empty_pattern_panics_witness:
  "''/v1'' \<noteq> [] \<and>
   Route (fst (NewMux (init_state max))) ''/v1'' None (snd (NewMux (init_state max)))
     \<noteq> Inl IndexOutOfRange \<and>
   Route (fst (NewMux (init_state max))) [] None (snd (NewMux (init_state max)))
     = Inl IndexOutOfRange"
  using Route_empty_pattern_panics
          [of "fst (NewMux (init_state max))" None "snd (NewMux (init_state max))" "''/v1''"]
  by simp

text \<open>
  C10. For a Mux \<open>m\<close> of the store and a pattern \<open>p\<close> that is not empty, \<open>m.Group(nil)\<close> and
  \<open>m.Route(p, nil)\<close> return without a panic a pointer to a new Mux: it has the engine of
  \<open>m\<close>, the same list of middlewares held in an array of its own, and the prefix of \<open>m\<close>
  (for \<open>Route\<close>: followed by \<open>p\<close>, with a separator appended unless \<open>p\<close> ends in one);
  \<open>m\<close>, the arrays that existed and the engines are unchanged.
\<close>

theorem Group_Route_nil_callback:
  assumes d: "deref_Mux s m = Inr mux" and wm: "wf_slice s (middlewares mux)" and p: "p \<noteq> []"
  shows "(\<exists>d s1 dm. Group m None s = Inr (d, s1) \<and> d \<noteq> m \<and>
            deref_Mux s1 d = Inr dm \<and> deref_Mux s1 m = Inr mux \<and>
            chi dm = chi mux \<and> prefix dm = prefix mux \<and>
            slice_contents s1 (middlewares dm) = slice_contents s (middlewares mux) \<and>
            (cap (middlewares dm) = 0 \<or> ptr (middlewares dm) \<noteq> ptr (middlewares mux)) \<and>
            take (length (arrays s)) (arrays s1) = arrays s \<and> engines s1 = engines s) \<and>
         (\<exists>d s1 dm. Route m p None s = Inr (d, s1) \<and> d \<noteq> m \<and>
            deref_Mux s1 d = Inr dm \<and> deref_Mux s1 m = Inr mux \<and>
            chi dm = chi mux \<and>
            prefix dm = prefix mux @ (if last p \<noteq> CHR ''/'' then p @ ''/'' else p) \<and>
            slice_contents s1 (middlewares dm) = slice_contents s (middlewares mux) \<and>
            (cap (middlewares dm) = 0 \<or> ptr (middlewares dm) \<noteq> ptr (middlewares mux)) \<and>
            take (length (arrays s)) (arrays s1) = arrays s \<and> engines s1 = engines s)"
proof -
  have new: "Some (length (muxes s)) \<noteq> m"
    using d by (auto simp: deref_Mux_Inr)
  have sep: "cap (middlewares dm) = 0 \<or> ptr (middlewares dm) \<noteq> ptr (middlewares mux)"
    if "len (middlewares dm) = len (middlewares mux)"
      and "len (middlewares dm) = 0 \<longrightarrow> cap (middlewares dm) = 0"
      and "cap (middlewares dm) = 0 \<or> (\<exists>a. ptr (middlewares dm) = Some a \<and> length (arrays s) \<le> a)"
    for dm
    using that wm by (auto simp: wf_slice_def split: option.splits)
  obtain dm s1 where g: "With m nil_slice s = Inr (Some (length (muxes s)), s1)"
    and g1: "muxes s1 = muxes s @ [dm]" "chi dm = chi mux" "prefix dm = prefix mux"
      "slice_contents s1 (middlewares dm) = slice_contents s (middlewares mux) @ slice_contents s nil_slice"
      "len (middlewares dm) = len (middlewares mux) + len nil_slice"
      "len (middlewares dm) = 0 \<longrightarrow> cap (middlewares dm) = 0"
      "cap (middlewares dm) = 0 \<or> (\<exists>a. ptr (middlewares dm) = Some a \<and> length (arrays s) \<le> a)"
      "take (length (arrays s)) (arrays s1) = arrays s" "engines s1 = engines s"
    using With_result [OF d wm wf_nil_slice] by (elim exE conjE) (rule that; assumption)
  have G: "\<exists>d s1 dm. Group m None s = Inr (d, s1) \<and> d \<noteq> m \<and>
            deref_Mux s1 d = Inr dm \<and> deref_Mux s1 m = Inr mux \<and>
            chi dm = chi mux \<and> prefix dm = prefix mux \<and>
            slice_contents s1 (middlewares dm) = slice_contents s (middlewares mux) \<and>
            (cap (middlewares dm) = 0 \<or> ptr (middlewares dm) \<noteq> ptr (middlewares mux)) \<and>
            take (length (arrays s)) (arrays s1) = arrays s \<and> engines s1 = engines s"
    using g g1 new deref_Mux_new [OF g1(1)] deref_Mux_old [OF d g1(1)] sep [of dm]
    by (simp add: Group_nil contents_nil_slice nil_slice_def)
  obtain rm t1 where r: "Route m p None s = Inr (Some (length (muxes s)), t1)"
    and r1: "muxes t1 = muxes s @ [rm]" "chi rm = chi mux"
      "prefix rm = prefix mux @ (if last p \<noteq> CHR ''/'' then p @ ''/'' else p)"
      "slice_contents t1 (middlewares rm) = slice_contents s (middlewares mux)"
      "len (middlewares rm) = len (middlewares mux)"
      "len (middlewares rm) = 0 \<longrightarrow> cap (middlewares rm) = 0"
      "cap (middlewares rm) = 0 \<or> (\<exists>a. ptr (middlewares rm) = Some a \<and> length (arrays s) \<le> a)"
      "take (length (arrays s)) (arrays t1) = arrays s" "engines t1 = engines s"
    using Route_result [OF d wm p] by (elim exE conjE) (rule that; assumption)
  have R: "\<exists>d s1 dm. Route m p None s = Inr (d, s1) \<and> d \<noteq> m \<and>
            deref_Mux s1 d = Inr dm \<and> deref_Mux s1 m = Inr mux \<and>
            chi dm = chi mux \<and>
            prefix dm = prefix mux @ (if last p \<noteq> CHR ''/'' then p @ ''/'' else p) \<and>
            slice_contents s1 (middlewares dm) = slice_contents s (middlewares mux) \<and>
            (cap (middlewares dm) = 0 \<or> ptr (middlewares dm) \<noteq> ptr (middlewares mux)) \<and>
            take (length (arrays s)) (arrays s1) = arrays s \<and> engines s1 = engines s"
    using r r1 new deref_Mux_new [OF r1(1)] deref_Mux_old [OF d r1(1)] sep [of rm]
    by simp
  from G R show ?thesis ..
qed

theorem Group_Route_nil_callback_witness:
  "deref_Mux demo_state (Some 0)
     = Inr \<lparr>chi = Some 0, middlewares = \<lparr>ptr = Some 4, len = 1, cap = 2\<rparr>, prefix = []\<rparr> \<and>
   wf_slice demo_state \<lparr>ptr = Some 4, len = 1, cap = 2\<rparr> \<and>
   ''/v1'' \<noteq> [] \<and>
   (\<exists>d s1 dm. Group (Some 0) None demo_state = Inr (d, s1) \<and> d \<noteq> Some 0 \<and>
      deref_Mux s1 d = Inr dm \<and> chi dm = Some 0 \<and> prefix dm = [] \<and>
      slice_contents s1 (middlewares dm) = [Some (observer ''a'')] \<and>
      (cap (middlewares dm) = 0 \<or> ptr (middlewares dm) \<noteq> Some 4) \<and>
      engines s1 = engines demo_state) \<and>
   (\<exists>d s1 dm. Route (Some 0) ''/v1'' None demo_state = Inr (d, s1) \<and> d \<noteq> Some 0 \<and>
      deref_Mux s1 d = Inr dm \<and> chi dm = Some 0 \<and> prefix dm = ''/v1/'' \<and>
      slice_contents s1 (middlewares dm) = [Some (observer ''a'')] \<and>
      (cap (middlewares dm) = 0 \<or> ptr (middlewares dm) \<noteq> Some 4) \<and>
      engines s1 = engines demo_state)"
proof -
  let ?mux = "\<lparr>chi = Some 0, middlewares = \<lparr>ptr = Some 4, len = 1, cap = 2\<rparr>, prefix = []\<rparr>"
  have h1: "deref_Mux demo_state (Some 0) = Inr ?mux"
    by (simp add: deref_Mux_def demo_state_def)
  have h2: "wf_slice demo_state (middlewares ?mux)"
    by (simp add: wf_slice_def demo_state_def)
  have h3: "''/v1'' \<noteq> []" by simp
  have c: "slice_contents demo_state \<lparr>ptr = Some 4, len = 1, cap = 2\<rparr> = [Some (observer ''a'')]"
    by (simp add: slice_contents_def demo_state_def)
  from Group_Route_nil_callback [OF h1 h2 h3] h1 h2 c show ?thesis
    by simp blast
qed

section \<open>Appending to a Mux\<close>

lemma slice_contents_same_arrays:
  "arrays s' = arrays s \<Longrightarrow> slice_contents s' sl = slice_contents s sl"
  by (simp add: slice_contents_def cong: option.case_cong)

lemma wf_slice_same_arrays:
  "arrays s' = arrays s \<Longrightarrow> wf_slice s' sl = wf_slice s sl"
  by (simp add: wf_slice_def cong: option.case_cong)

lemma append_slice_result:
  assumes wm: "wf_slice t sl"
  shows "\<exists>sl1 t1. append_slice sl ys t = (sl1, t1) \<and>
           slice_contents t1 sl1 = slice_contents t sl @ ys \<and>
           wf_slice t1 sl1 \<and>
           muxes t1 = muxes t \<and> engines t1 = engines t \<and> growslice t1 = growslice t \<and>
           (take (length (arrays t)) (arrays t1) = arrays t \<or>
            (\<exists>a. ptr sl = Some a \<and> 0 < cap sl \<and> a < length (arrays t) \<and>
                 length (arrays t1) = length (arrays t) \<and>
                 (\<forall>b. b \<noteq> a \<longrightarrow> arrays t1 ! b = arrays t ! b)))"
proof -
  define n where "n = len sl"
  have lc: "n \<le> cap sl" using wm by (simp add: wf_slice_def n_def)
  consider (noarg) "ys = []" | (fits) "ys \<noteq> []" "n + length ys \<le> cap sl"
    | (grows) "ys \<noteq> []" "cap sl < n + length ys"
    by linarith
  then show ?thesis
  proof cases
    case noarg
    have "append_slice sl ys t = (sl, t)"
      using lc noarg by (simp add: append_slice_nothing n_def)
    then show ?thesis
      using noarg wm by simp
  next
    case fits
    then have cpos: "0 < cap sl" by (cases ys) auto
    then obtain a where a: "ptr sl = Some a" and al: "a < length (arrays t)"
      and ca: "cap sl \<le> length (arrays t ! a)"
      using wm by (auto simp: wf_slice_def split: option.splits)
    define arr where "arr = arrays t ! a"
    define t1 where "t1 = write_array a n ys t"
    have ap: "append_slice sl ys t = (sl\<lparr>len := n + length ys\<rparr>, t1)"
      using fits a by (simp add: append_slice_in_place n_def t1_def)
    have arrs: "arrays t1 = (arrays t)[a := take n arr @ ys @ drop (n + length ys) arr]"
      by (simp add: t1_def write_array_def arr_def)
    have rest: "muxes t1 = muxes t" "engines t1 = engines t" "growslice t1 = growslice t"
      by (simp_all add: t1_def write_array_def)
    have n_arr: "n \<le> length arr" "cap sl \<le> length arr" using lc ca by (simp_all add: arr_def)
    have 1: "slice_contents t1 (sl\<lparr>len := n + length ys\<rparr>) = take n arr @ ys"
      using a al n_arr by (simp add: slice_contents_def arrs)
    have 2: "slice_contents t sl = take n arr"
      using a by (simp add: slice_contents_def arr_def n_def)
    have 3: "wf_slice t1 (sl\<lparr>len := n + length ys\<rparr>)"
      using a al n_arr fits by (simp add: wf_slice_def arrs)
    have 4: "\<forall>b. b \<noteq> a \<longrightarrow> arrays t1 ! b = arrays t ! b"
      by (simp add: arrs)
    have 5: "length (arrays t1) = length (arrays t)"
      by (simp add: arrs)
    show ?thesis
      using ap 1 2 3 4 5 rest a al cpos by simp
  next
    case grows
    define c where "c = max (n + length ys) (growslice t (cap sl) (n + length ys))"
    define t1 where "t1 = t\<lparr>arrays := arrays t @ [slice_contents t sl @ ys @ replicate (c - (n + length ys)) None]\<rparr>"
    have ap: "append_slice sl ys t = (\<lparr>ptr = Some (length (arrays t)), len = n + length ys, cap = c\<rparr>, t1)"
      using grows by (simp add: append_slice_grow n_def c_def t1_def)
    have rest: "muxes t1 = muxes t" "engines t1 = engines t" "growslice t1 = growslice t"
      "take (length (arrays t)) (arrays t1) = arrays t"
      by (simp_all add: t1_def)
    have ln: "length (slice_contents t sl) = n"
      using length_slice_contents [OF wm] by (simp add: n_def)
    have 1: "slice_contents t1 \<lparr>ptr = Some (length (arrays t)), len = n + length ys, cap = c\<rparr>
            = slice_contents t sl @ ys"
      using ln by (simp add: slice_contents_def [of _ "\<lparr>ptr = _, len = _, cap = _\<rparr>"] t1_def)
    have 3: "wf_slice t1 \<lparr>ptr = Some (length (arrays t)), len = n + length ys, cap = c\<rparr>"
      using ln by (simp add: wf_slice_def t1_def c_def)
    show ?thesis
      using ap 1 3 rest by simp
  qed
qed

lemma Use_result:
  assumes d: "deref_Mux t m = Inr mm" and wm: "wf_slice t (middlewares mm)"
  shows "\<exists>t' mm'. Use m extra t = Inr t' \<and> deref_Mux t' m = Inr mm' \<and>
           chi mm' = chi mm \<and> prefix mm' = prefix mm \<and>
           slice_contents t' (middlewares mm')
             = slice_contents t (middlewares mm) @ slice_contents t extra \<and>
           wf_slice t' (middlewares mm') \<and>
           length (muxes t') = length (muxes t) \<and>
           (\<forall>b. Some b \<noteq> m \<longrightarrow> muxes t' ! b = muxes t ! b) \<and>
           engines t' = engines t \<and> growslice t' = growslice t \<and>
           (take (length (arrays t)) (arrays t') = arrays t \<or>
            (\<exists>a. ptr (middlewares mm) = Some a \<and> 0 < cap (middlewares mm) \<and>
                 a < length (arrays t) \<and>
                 length (arrays t') = length (arrays t) \<and>
                 (\<forall>b. b \<noteq> a \<longrightarrow> arrays t' ! b = arrays t ! b)))"
proof -
  obtain i where m: "m = Some i" and i: "i < length (muxes t)"
    using d by (auto simp: deref_Mux_Inr)
  obtain sl1 t1 where ap: "append_slice (middlewares mm) (slice_contents t extra) t = (sl1, t1)"
    and c: "slice_contents t1 sl1 = slice_contents t (middlewares mm) @ slice_contents t extra"
    and w: "wf_slice t1 sl1"
    and rest: "muxes t1 = muxes t" "engines t1 = engines t" "growslice t1 = growslice t"
    and fr: "take (length (arrays t)) (arrays t1) = arrays t \<or>
            (\<exists>a. ptr (middlewares mm) = Some a \<and> 0 < cap (middlewares mm) \<and>
                 a < length (arrays t) \<and>
                 length (arrays t1) = length (arrays t) \<and>
                 (\<forall>b. b \<noteq> a \<longrightarrow> arrays t1 ! b = arrays t ! b))"
    using append_slice_result [OF wm, of "slice_contents t extra"]
    by (elim exE conjE) (rule that; assumption)
  define t' where "t' = t1\<lparr>muxes := (muxes t1)[i := mm\<lparr>middlewares := sl1\<rparr>]\<rparr>"
  have u: "Use m extra t = Inr t'"
    using d m ap by (simp add: Use_def update_Mux_def t'_def)
  have a': "arrays t' = arrays t1" "engines t' = engines t1" "growslice t' = growslice t1"
    "muxes t' = (muxes t)[i := mm\<lparr>middlewares := sl1\<rparr>]"
    by (simp_all add: t'_def rest)
  have dd: "deref_Mux t' m = Inr (mm\<lparr>middlewares := sl1\<rparr>)"
    using i m by (simp add: deref_Mux_Inr a')
  have c': "slice_contents t' sl1 = slice_contents t (middlewares mm) @ slice_contents t extra"
    using c slice_contents_same_arrays [OF a'(1)] by simp
  have w': "wf_slice t' sl1"
    using w wf_slice_same_arrays [OF a'(1)] by simp
  have o: "\<forall>b. Some b \<noteq> m \<longrightarrow> muxes t' ! b = muxes t ! b"
    using m by (auto simp: a')
  show ?thesis
    using u dd c' w' o fr by (simp add: a' rest)
qed

lemma Handle_frame:
  "Handle m pat h s = Inr s' \<Longrightarrow>
   arrays s' = arrays s \<and> muxes s' = muxes s \<and> growslice s' = growslice s"
  by (auto simp: Handle_def update_chi_def split: sum.splits option.splits)

lemma length_of_take_eq:
  assumes "take (length A) B = A"
  shows "length A \<le> length B"
proof -
  have "length (take (length A) B) = length A" using assms by simp
  then show ?thesis by simp
qed

lemma wf_slice_preserved:
  assumes "wf_slice s sl" and "take (length (arrays s)) (arrays s') = arrays s"
  shows "wf_slice s' sl"
proof (cases "cap sl = 0")
  case True
  with assms(1) show ?thesis by (simp add: wf_slice_def split: option.splits)
next
  case False
  with assms length_of_take_eq [OF assms(2)] show ?thesis
    by (auto simp: wf_slice_def nth_of_take_eq split: option.splits)
qed

lemma slice_contents_len_zero: "len sl = 0 \<Longrightarrow> slice_contents s sl = []"
  by (simp add: slice_contents_def split: option.splits)

lemma slice_contents_same_array:
  "ptr sl = Some a \<Longrightarrow> arrays s' ! a = arrays s ! a \<Longrightarrow>
   slice_contents s' sl = slice_contents s sl"
  by (simp add: slice_contents_def)

lemma deref_chi_same_engines:
  "engines s' = engines s \<Longrightarrow> deref_chi s' e = deref_chi s e"
  by (simp add: deref_chi_def split: option.splits)

lemma ServeHTTP_same_engines:
  assumes "deref_Mux s' d = deref_Mux s d" and "engines s' = engines s"
  shows "ServeHTTP d w r s' = ServeHTTP d w r s"
  unfolding ServeHTTP_def assms(1) deref_chi_same_engines [OF assms(2)] ..

lemma Handle_same_engines:
  assumes "deref_Mux s' d = Inr dm" and "deref_Mux s d = Inr dm"
      and "engines s' = engines s"
      and "Then (NewChain (middlewares dm)) h s' = Then (NewChain (middlewares dm)) h s"
  shows "map_sum id engines (Handle d pat h s') = map_sum id engines (Handle d pat h s)"
  using assms deref_chi_same_engines [OF assms(3), of "chi dm"]
  by (simp add: Handle_def update_chi_def split: sum.splits option.splits)

lemma demo_state_fields:
  "deref_Mux demo_state (Some 0)
     = Inr \<lparr>chi = Some 0, middlewares = \<lparr>ptr = Some 4, len = 1, cap = 2\<rparr>, prefix = []\<rparr>"
  "wf_slice demo_state \<lparr>ptr = Some 4, len = 1, cap = 2\<rparr>"
  "wf_slice demo_state \<lparr>ptr = Some 2, len = 1, cap = 1\<rparr>"
  "wf_slice demo_state \<lparr>ptr = Some 3, len = 1, cap = 1\<rparr>"
  "slice_contents demo_state \<lparr>ptr = Some 4, len = 1, cap = 2\<rparr> = [Some (observer ''a'')]"
  "slice_contents demo_state \<lparr>ptr = Some 2, len = 1, cap = 1\<rparr> = [Some (observer ''b'')]"
  "slice_contents demo_state \<lparr>ptr = Some 3, len = 1, cap = 1\<rparr> = [Some (observer ''c'')]"
  "engines demo_state = [chi_NewMux]"
  "length (muxes demo_state) = 1"
  by (simp_all add: deref_Mux_def demo_state_def wf_slice_def slice_contents_def)

text \<open>
  C4. Let \<open>d = m.With(x...)\<close> for a Mux \<open>m\<close> of the store, let a handler be registered
  through \<open>d\<close>, and let \<open>m.Use(extra...)\<close> follow. Then \<open>d\<close> is the same object as before and
  holds the same list (the list of \<open>m\<close> at the time of \<open>With\<close>, followed by \<open>x\<close>); the engines,
  and so the handlers registered, are unchanged and serve every request as before; a
  handler registered through \<open>d\<close> afterwards gives the engines it would have given before;
  while \<open>m\<close> itself now holds its old list followed by \<open>extra\<close>.
\<close>

theorem With_list_survives_Use:
  assumes dm: "deref_Mux s m = Inr mux"
      and wm: "wf_slice s (middlewares mux)" and wx: "wf_slice s x"
      and w: "With m x s = Inr (d, s1)"
      and h: "Handle d pat h s1 = Inr s2"
      and u: "Use m extra s2 = Inr s3"
  shows "\<exists>dmux mux'. deref_Mux s1 d = Inr dmux \<and> deref_Mux s3 d = Inr dmux \<and>
           slice_contents s1 (middlewares dmux)
             = slice_contents s (middlewares mux) @ slice_contents s x \<and>
           slice_contents s3 (middlewares dmux) = slice_contents s1 (middlewares dmux) \<and>
           engines s3 = engines s2 \<and>
           ServeHTTP d w' r s3 = ServeHTTP d w' r s2 \<and>
           map_sum id engines (Handle d pat' h' s3) = map_sum id engines (Handle d pat' h' s2) \<and>
           deref_Mux s3 m = Inr mux' \<and>
           slice_contents s3 (middlewares mux')
             = slice_contents s (middlewares mux) @ slice_contents s2 extra"
proof -
  define L where "L = length (arrays s)"
  obtain dmux s1' where w': "With m x s = Inr (Some (length (muxes s)), s1')"
    and m1: "muxes s1' = muxes s @ [dmux]"
    and c1: "slice_contents s1' (middlewares dmux)
               = slice_contents s (middlewares mux) @ slice_contents s x"
    and wd: "wf_slice s1' (middlewares dmux)"
    and sep: "cap (middlewares dmux) = 0 \<or>
              (\<exists>a. ptr (middlewares dmux) = Some a \<and> length (arrays s) \<le> a)"
    and t1: "take (length (arrays s)) (arrays s1') = arrays s"
    using With_result [OF dm wm wx] by (elim exE conjE) (rule that; assumption)
  have d: "d = Some (length (muxes s))" and s1: "s1' = s1"
    using w w' by simp_all
  note m1 = m1 [unfolded s1] and c1 = c1 [unfolded s1] and wd = wd [unfolded s1]
    and t1 = t1 [unfolded s1]
  have f2: "arrays s2 = arrays s1" "muxes s2 = muxes s1"
    using Handle_frame [OF h] by simp_all
  have d1: "deref_Mux s1 d = Inr dmux"
    unfolding d using m1 by (rule deref_Mux_new)
  have m2: "muxes s2 = muxes s @ [dmux]"
    using m1 f2 by simp
  have d2: "deref_Mux s2 d = Inr dmux"
    unfolding d using m2 by (rule deref_Mux_new)
  have dm2: "deref_Mux s2 m = Inr mux"
    using dm m2 by (rule deref_Mux_old)
  have t2: "take (length (arrays s)) (arrays s2) = arrays s"
    using t1 f2 by simp
  have wm2: "wf_slice s2 (middlewares mux)"
    using wm t2 by (rule wf_slice_preserved)
  have cm2: "slice_contents s2 (middlewares mux) = slice_contents s (middlewares mux)"
    using wm t2 by (rule slice_contents_preserved)
  have wd2: "wf_slice s2 (middlewares dmux)"
    using wd wf_slice_same_arrays [OF f2(1)] by simp
  obtain s3' mux' where u': "Use m extra s2 = Inr s3'" and dm3: "deref_Mux s3' m = Inr mux'"
    and cm3: "slice_contents s3' (middlewares mux')
               = slice_contents s2 (middlewares mux) @ slice_contents s2 extra"
    and l3: "length (muxes s3') = length (muxes s2)"
    and o3: "\<forall>b. Some b \<noteq> m \<longrightarrow> muxes s3' ! b = muxes s2 ! b"
    and e3: "engines s3' = engines s2"
    and fr: "take (length (arrays s2)) (arrays s3') = arrays s2 \<or>
            (\<exists>a. ptr (middlewares mux) = Some a \<and> 0 < cap (middlewares mux) \<and>
                 a < length (arrays s2) \<and>
                 length (arrays s3') = length (arrays s2) \<and>
                 (\<forall>b. b \<noteq> a \<longrightarrow> arrays s3' ! b = arrays s2 ! b))"
    using Use_result [OF dm2 wm2, of extra] by (elim exE conjE) (rule that; assumption)
  have s3: "s3' = s3" using u u' by simp
  note dm3 = dm3 [unfolded s3] and cm3 = cm3 [unfolded s3] and l3 = l3 [unfolded s3]
    and o3 = o3 [unfolded s3] and e3 = e3 [unfolded s3] and fr = fr [unfolded s3]
  have dne: "d \<noteq> m"
    using dm by (auto simp: d deref_Mux_Inr)
  have d3: "deref_Mux s3 d = Inr dmux"
    using d2 dne o3 l3 by (auto simp: d deref_Mux_Inr)
  have same: "arrays s3 ! a = arrays s2 ! a"
    if a: "ptr (middlewares dmux) = Some a" and pos: "0 < cap (middlewares dmux)" for a
  proof -
    have La: "L \<le> a" using sep a pos by (auto simp: L_def)
    have al: "a < length (arrays s2)"
      using wd2 a pos by (auto simp: wf_slice_def)
    from fr show ?thesis
    proof
      assume "take (length (arrays s2)) (arrays s3) = arrays s2"
      then show ?thesis using al by (rule nth_of_take_eq)
    next
      assume "\<exists>a. ptr (middlewares mux) = Some a \<and> 0 < cap (middlewares mux) \<and>
                 a < length (arrays s2) \<and>
                 length (arrays s3) = length (arrays s2) \<and>
                 (\<forall>b. b \<noteq> a \<longrightarrow> arrays s3 ! b = arrays s2 ! b)"
      then obtain a' where a': "ptr (middlewares mux) = Some a'" "0 < cap (middlewares mux)"
        and o: "\<forall>b. b \<noteq> a' \<longrightarrow> arrays s3 ! b = arrays s2 ! b"
        by blast
      have "a' < L" using wm a' by (auto simp: wf_slice_def L_def)
      with La have "a \<noteq> a'" by simp
      with o show ?thesis by simp
    qed
  qed
  have cd3: "slice_contents s3 (middlewares dmux) = slice_contents s2 (middlewares dmux)"
  proof (cases "cap (middlewares dmux) = 0")
    case True
    then have "len (middlewares dmux) = 0" using wd by (simp add: wf_slice_def)
    then show ?thesis by (simp add: slice_contents_len_zero)
  next
    case False
    then obtain a where a: "ptr (middlewares dmux) = Some a"
      using sep by auto
    have "arrays s3 ! a = arrays s2 ! a"
      using same [OF a] False by simp
    with a show ?thesis by (rule slice_contents_same_array)
  qed
  have cd2: "slice_contents s2 (middlewares dmux) = slice_contents s1 (middlewares dmux)"
    using f2(1) by (rule slice_contents_same_arrays)
  have th: "Then (NewChain (middlewares dmux)) h' s3 = Then (NewChain (middlewares dmux)) h' s2"
  proof (cases "len (middlewares dmux) = 0")
    case True
    then show ?thesis by (simp add: NewChain_def Then_def)
  next
    case False
    then have pos: "0 < cap (middlewares dmux)" using wd by (simp add: wf_slice_def)
    have "arrays s3 ! a = arrays s2 ! a"
      if "ptr (Chain.middlewares (NewChain (middlewares dmux))) = Some a" for a
      using that False same [OF _ pos] by (simp add: NewChain_def)
    then show ?thesis by (rule Then_frame)
  qed
  have "deref_Mux s3 d = deref_Mux s2 d"
    using d3 d2 by simp
  then have serve: "ServeHTTP d w' r s3 = ServeHTTP d w' r s2"
    using e3 by (rule ServeHTTP_same_engines)
  have reg: "map_sum id engines (Handle d pat' h' s3) = map_sum id engines (Handle d pat' h' s2)"
    using d3 d2 e3 th by (rule Handle_same_engines)
  show ?thesis
    using d1 d3 c1 cd3 cd2 e3 serve reg dm3 cm3 cm2 by simp
qed

theorem With_list_survives_Use_witness:
  "deref_Mux demo_state (Some 0)
     = Inr \<lparr>chi = Some 0, middlewares = \<lparr>ptr = Some 4, len = 1, cap = 2\<rparr>, prefix = []\<rparr> \<and>
   wf_slice demo_state \<lparr>ptr = Some 4, len = 1, cap = 2\<rparr> \<and>
   wf_slice demo_state \<lparr>ptr = Some 2, len = 1, cap = 1\<rparr> \<and>
   (\<exists>d s1 s2 s3 dmux mux'.
      With (Some 0) \<lparr>ptr = Some 2, len = 1, cap = 1\<rparr> demo_state = Inr (d, s1) \<and>
      Handle d ''/x'' (endpoint ''h'') s1 = Inr s2 \<and>
      Use (Some 0) \<lparr>ptr = Some 3, len = 1, cap = 1\<rparr> s2 = Inr s3 \<and>
      deref_Mux s3 d = Inr dmux \<and>
      slice_contents s3 (middlewares dmux) = [Some (observer ''a''), Some (observer ''b'')] \<and>
      engines s3 = engines s2 \<and>
      ServeHTTP d [] \<lparr>reqMethod = ''GET'', reqPath = ''/x''\<rparr> s3
        = ServeHTTP d [] \<lparr>reqMethod = ''GET'', reqPath = ''/x''\<rparr> s2 \<and>
      ServeHTTP d [] \<lparr>reqMethod = ''GET'', reqPath = ''/x''\<rparr> s2
        = Inr [Write ''a'', Write ''b'', Write ''h''] \<and>
      deref_Mux s3 (Some 0) = Inr mux' \<and>
      slice_contents s3 (middlewares mux') = [Some (observer ''a''), Some (observer ''c'')])"
proof -
  let ?mux = "\<lparr>chi = Some 0, middlewares = \<lparr>ptr = Some 4, len = 1, cap = 2\<rparr>, prefix = []\<rparr>"
  let ?xb = "\<lparr>ptr = Some 2, len = 1, cap = 1\<rparr>"
  let ?xc = "\<lparr>ptr = Some 3, len = 1, cap = 1\<rparr>"
  let ?rq = "\<lparr>reqMethod = ''GET'', reqPath = ''/x''\<rparr>"
  have h1: "deref_Mux demo_state (Some 0) = Inr ?mux" by (rule demo_state_fields)
  have h2: "wf_slice demo_state (middlewares ?mux)" by (simp add: demo_state_fields del: One_nat_def)
  have h3: "wf_slice demo_state ?xb" by (rule demo_state_fields)
  obtain dmux s1 where w: "With (Some 0) ?xb demo_state = Inr (Some (length (muxes demo_state)), s1)"
    and m1: "muxes s1 = muxes demo_state @ [dmux]" and ch: "chi dmux = chi ?mux"
    and pr: "prefix dmux = prefix ?mux"
    and c1: "slice_contents s1 (middlewares dmux)
               = slice_contents demo_state (middlewares ?mux) @ slice_contents demo_state ?xb"
    and l1: "len (middlewares dmux) = len (middlewares ?mux) + len ?xb"
    and wd: "wf_slice s1 (middlewares dmux)"
    and t1: "take (length (arrays demo_state)) (arrays s1) = arrays demo_state"
    and e1: "engines s1 = engines demo_state"
    using With_result [OF h1 h2 h3] by (elim exE conjE) (rule that; assumption)
  let ?d = "Some (length (muxes demo_state))"
  have d1: "deref_Mux s1 ?d = Inr dmux" using m1 by (rule deref_Mux_new)
  have c1': "slice_contents s1 (middlewares dmux) = map Some [observer ''a'', observer ''b'']"
    using c1 by (simp add: demo_state_fields del: One_nat_def)
  have l1': "len (middlewares dmux) = length [observer ''a'', observer ''b'']"
    using l1 by simp
  have nc: "NewChain (middlewares dmux) = \<lparr>Chain.middlewares = middlewares dmux\<rparr>"
    using l1 by (simp add: NewChain_def)
  have th: "Then (NewChain (middlewares dmux)) (endpoint ''h'') s1
              = Inr (observer ''a'' (observer ''b'' (endpoint ''h'')))"
    using Then_contents [of s1 "NewChain (middlewares dmux)" "[observer ''a'', observer ''b'']"
            "endpoint ''h''"] c1' l1' nc
    by simp
  have dc: "deref_chi s1 (chi dmux) = Inr chi_NewMux"
    using ch e1 by (simp add: deref_chi_def demo_state_fields del: One_nat_def)
  define s2 where "s2 = update_chi (Some 0)
      (chi_Handle chi_NewMux ''/x'' (adaptor (observer ''a'' (observer ''b'' (endpoint ''h''))))) s1"
  have hd: "Handle ?d ''/x'' (endpoint ''h'') s1 = Inr s2"
    using d1 th dc ch pr by (simp add: Handle_def s2_def)
  have f2: "arrays s2 = arrays s1" "muxes s2 = muxes s1"
    using Handle_frame [OF hd] by simp_all
  have dm2: "deref_Mux s2 (Some 0) = Inr ?mux"
    using h1 m1 f2 deref_Mux_old [OF h1, of s2 "[dmux]"] by simp
  have t2: "take (length (arrays demo_state)) (arrays s2) = arrays demo_state"
    using t1 f2 by simp
  have wm2: "wf_slice s2 (middlewares ?mux)"
    using h2 t2 by (rule wf_slice_preserved)
  have cc2: "slice_contents s2 ?xc = [Some (observer ''c'')]"
    using slice_contents_preserved [OF demo_state_fields(4) t2] by (simp add: demo_state_fields del: One_nat_def)
  obtain s3 where u: "Use (Some 0) ?xc s2 = Inr s3"
    using Use_result [OF dm2 wm2, of ?xc] by blast
  have e2: "engines s2 = [chi_Handle chi_NewMux ''/x''
              (adaptor (observer ''a'' (observer ''b'' (endpoint ''h''))))]"
    using e1 by (simp add: s2_def update_chi_def demo_state_fields del: One_nat_def)
  have d2: "deref_Mux s2 ?d = Inr dmux"
    using deref_Mux_new [of s2 demo_state dmux] m1 f2 by simp
  have sv: "ServeHTTP ?d [] ?rq s2 = Inr [Write ''a'', Write ''b'', Write ''h'']"
    using d2 ch e2
    by (simp add: ServeHTTP_def deref_chi_def chi_ServeHTTP_def chi_Handle_def chi_NewMux_def
        adaptor_def observer_def endpoint_def)
  from With_list_survives_Use [OF h1 h2 h3 w hd u, of "[]" ?rq "''/x''" "endpoint ''h''"]
  obtain dmux' mux' where r: "deref_Mux s1 ?d = Inr dmux'" "deref_Mux s3 ?d = Inr dmux'"
     "slice_contents s3 (middlewares dmux') = slice_contents s1 (middlewares dmux')"
     "engines s3 = engines s2"
     "ServeHTTP ?d [] ?rq s3 = ServeHTTP ?d [] ?rq s2"
     "deref_Mux s3 (Some 0) = Inr mux'"
     "slice_contents s3 (middlewares mux')
        = slice_contents demo_state (middlewares ?mux) @ slice_contents s2 ?xc"
    by (elim exE conjE) (rule that; assumption)
  have dd: "dmux' = dmux" using r(1) d1 by simp
  show ?thesis
    using h1 h2 h3 w hd u r sv c1' cc2 unfolding dd
    by (simp add: demo_state_fields del: One_nat_def)
qed

section \<open>The hooks of the engine\<close>

lemma NewMux_init:
  "NewMux (init_state g) =
     (Some 0, \<lparr>arrays = [[]], growslice = g,
               muxes = [\<lparr>chi = Some 0, middlewares = \<lparr>ptr = Some 0, len = 0, cap = 0\<rparr>, prefix = []\<rparr>],
               engines = [chi_NewMux]\<rparr>)"
  by (simp add: NewMux_def init_state_def new_Mux_def zerobase_def)

text \<open>
  C2. On a new Mux, after \<open>NotFound(f)\<close>, \<open>MethodNotAllowed(g)\<close> and the registration of
  \<open>GET /x\<close>: the engine's not-found hook holds \<open>g\<close> (the handler \<open>f\<close> has been replaced) and
  its method-not-allowed hook is still empty; a request for a path that matches no pattern
  is served by \<open>g\<close>, and a request for \<open>/x\<close> with another method gets the engine's default
  405. The claim (the former reaches \<open>f\<close>, the latter \<open>g\<close>) does not hold of the code.
\<close>

theorem MethodNotAllowed_replaces_NotFound_hook:
  "\<exists>m s0 s1 s2 s3 eng.
     NewMux (init_state g0) = (m, s0) \<and>
     NotFound m f s0 = Inr s1 \<and>
     MethodNotAllowed m g s1 = Inr s2 \<and>
     Method m ''GET'' ''/x'' h s2 = Inr s3 \<and>
     deref_chi s3 (Some 0) = Inr eng \<and>
     notFoundHandler eng = Some (adaptor g) \<and>
     methodNotAllowedHandler eng = None \<and>
     ServeHTTP m w \<lparr>reqMethod = ''GET'', reqPath = ''/nope''\<rparr> s3
       = Inr (adaptor g w \<lparr>reqMethod = ''GET'', reqPath = ''/nope''\<rparr>) \<and>
     ServeHTTP m w \<lparr>reqMethod = ''POST'', reqPath = ''/x''\<rparr> s3 = Inr (w @ [WriteHeader 405])"
  apply (simp add: NewMux_init)
  apply (simp add: NotFound_def MethodNotAllowed_def Method_def deref_Mux_def deref_chi_def
      update_chi_def chi_NotFound_def chi_Method_def chi_NewMux_def NewChain_def Then_def
      ServeHTTP_def chi_ServeHTTP_def zerobase_def)
  done

section \<open>Nested routes\<close>

lemma prefix_of_Inr: "deref_Mux s m = Inr mux \<Longrightarrow> prefix_of s m = Inr (prefix mux)"
  by (simp add: prefix_of_def)

lemma sub_Route_nil:
  "Route m p1 (sub_Route p2 None) s =
     (case Route m p1 None s of
        Inl e \<Rightarrow> Inl e
      | Inr (d, s1) \<Rightarrow>
          (case Route d p2 None s1 of Inl e \<Rightarrow> Inl e | Inr (d2, s2) \<Rightarrow> Inr (d, s2)))"
  by (simp add: sub_Route_def Route_callback split: sum.splits prod.splits)

text \<open>
  C5, as amended. For a Mux \<open>m\<close> of the store and patterns \<open>p1\<close>, \<open>p2\<close> that are not empty,
  \<open>m.Route(p1, ...)\<close> returns a Mux whose prefix is the prefix of \<open>m\<close> followed by \<open>p1\<close>, with
  a separator appended unless \<open>p1\<close> ends in one, and \<open>Route(p2, ...)\<close> nested in it gives a
  Mux whose prefix is that prefix followed by \<open>p2\<close>, normalized the same way. The patterns
  are concatenated as they are: no separator is removed.
\<close>

theorem Route_nested_prefix:
  assumes d: "deref_Mux s m = Inr mux" and wm: "wf_slice s (middlewares mux)"
      and p1: "p1 \<noteq> []" and p2: "p2 \<noteq> []"
  shows "\<exists>d1 d2 s1 s2.
           Route m p1 None s = Inr (d1, s1) \<and>
           Route d1 p2 None s1 = Inr (d2, s2) \<and>
           Route m p1 (sub_Route p2 None) s = Inr (d1, s2) \<and>
           prefix_of s1 d1
             = Inr (prefix mux @ (if last p1 \<noteq> CHR ''/'' then p1 @ ''/'' else p1)) \<and>
           prefix_of s2 d1
             = Inr (prefix mux @ (if last p1 \<noteq> CHR ''/'' then p1 @ ''/'' else p1)) \<and>
           prefix_of s2 d2
             = Inr (prefix mux @ (if last p1 \<noteq> CHR ''/'' then p1 @ ''/'' else p1)
                               @ (if last p2 \<noteq> CHR ''/'' then p2 @ ''/'' else p2))"
proof -
  obtain dm1 s1 where r1: "Route m p1 None s = Inr (Some (length (muxes s)), s1)"
    and m1: "muxes s1 = muxes s @ [dm1]"
    and pr1: "prefix dm1 = prefix mux @ (if last p1 \<noteq> CHR ''/'' then p1 @ ''/'' else p1)"
    and w1: "wf_slice s1 (middlewares dm1)"
    using Route_result [OF d wm p1] by (elim exE conjE) (rule that; assumption)
  have d1: "deref_Mux s1 (Some (length (muxes s))) = Inr dm1"
    using m1 by (rule deref_Mux_new)
  obtain dm2 s2 where r2: "Route (Some (length (muxes s))) p2 None s1
                             = Inr (Some (length (muxes s1)), s2)"
    and m2: "muxes s2 = muxes s1 @ [dm2]"
    and pr2: "prefix dm2 = prefix dm1 @ (if last p2 \<noteq> CHR ''/'' then p2 @ ''/'' else p2)"
    using Route_result [OF d1 w1 p2] by (elim exE conjE) (rule that; assumption)
  have d12: "deref_Mux s2 (Some (length (muxes s))) = Inr dm1"
    using d1 m2 by (rule deref_Mux_old)
  have d2: "deref_Mux s2 (Some (length (muxes s1))) = Inr dm2"
    using m2 by (rule deref_Mux_new)
  have n: "Route m p1 (sub_Route p2 None) s = Inr (Some (length (muxes s)), s2)"
    using r1 r2 by (simp add: sub_Route_nil)
  show ?thesis
    using r1 r2 n prefix_of_Inr [OF d1] prefix_of_Inr [OF d12] prefix_of_Inr [OF d2] pr1 pr2
    by simp
qed

lemma new_Mux_fields:
  "deref_Mux (snd (NewMux (init_state max))) (Some 0)
     = Inr \<lparr>chi = Some 0, middlewares = \<lparr>ptr = Some 0, len = 0, cap = 0\<rparr>, prefix = []\<rparr>"
  "wf_slice (snd (NewMux (init_state max))) \<lparr>ptr = Some 0, len = 0, cap = 0\<rparr>"
  "length (muxes (snd (NewMux (init_state max)))) = 1"
  by (simp_all add: NewMux_init deref_Mux_def wf_slice_def)

theorem Route_nested_prefix_witness:
  "deref_Mux (snd (NewMux (init_state max))) (Some 0)
     = Inr \<lparr>chi = Some 0, middlewares = \<lparr>ptr = Some 0, len = 0, cap = 0\<rparr>, prefix = []\<rparr> \<and>
   wf_slice (snd (NewMux (init_state max))) \<lparr>ptr = Some 0, len = 0, cap = 0\<rparr> \<and>
   ''/v1'' \<noteq> [] \<and> ''/api'' \<noteq> [] \<and> ''/v1/'' \<noteq> [] \<and> ''/api/'' \<noteq> [] \<and> ''api'' \<noteq> [] \<and>
   (\<exists>d1 d2 s2.
      Route (Some 0) ''/v1'' (sub_Route ''/api'' None) (snd (NewMux (init_state max))) = Inr (d1, s2) \<and>
      prefix_of s2 d1 = Inr ''/v1/'' \<and> prefix_of s2 d2 = Inr ''/v1//api/'') \<and>
   (\<exists>d1 d2 s2.
      Route (Some 0) ''/v1/'' (sub_Route ''/api/'' None) (snd (NewMux (init_state max))) = Inr (d1, s2) \<and>
      prefix_of s2 d1 = Inr ''/v1/'' \<and> prefix_of s2 d2 = Inr ''/v1//api/'') \<and>
   (\<exists>d1 d2 s2.
      Route (Some 0) ''/v1'' (sub_Route ''api'' None) (snd (NewMux (init_state max))) = Inr (d1, s2) \<and>
      prefix_of s2 d1 = Inr ''/v1/'' \<and> prefix_of s2 d2 = Inr ''/v1/api/'')"
proof -
  let ?s = "snd (NewMux (init_state max))"
  let ?mux = "\<lparr>chi = Some 0, middlewares = \<lparr>ptr = Some 0, len = 0, cap = 0\<rparr>, prefix = []\<rparr>"
  have h1: "deref_Mux ?s (Some 0) = Inr ?mux" by (rule new_Mux_fields)
  have h2: "wf_slice ?s (middlewares ?mux)" using new_Mux_fields(2) by simp
  have a: "''/v1'' \<noteq> []" and b: "''/api'' \<noteq> []" and a': "''/v1/'' \<noteq> []"
    and b': "''/api/'' \<noteq> []" and c: "''api'' \<noteq> []"
    by simp_all
  show ?thesis
    using h1 new_Mux_fields(2)
      Route_nested_prefix [OF h1 h2 a b] Route_nested_prefix [OF h1 h2 a' b']
      Route_nested_prefix [OF h1 h2 a c]
    by simp blast
qed

text \<open>
  C5, as stated, fails: on a new Mux, \<open>Route("/v1", ...)\<close> with \<open>Route("/api", ...)\<close> nested
  in it gives the prefix \<open>/v1//api/\<close>, and a handler registered inside under \<open>users\<close> reaches
  the engine as \<open>/v1//api/users\<close>.
\<close>

theorem Route_nested_prefix_counterexample:
  "\<not> isl (Route (fst (NewMux (init_state max))) ''/v1''
            (sub_Route ''/api'' (sub_Handle ''users'' (endpoint ''h'')))
            (snd (NewMux (init_state max)))) \<and>
   prefix_of
     (snd (projr (Route (fst (NewMux (init_state max))) ''/v1''
                    (sub_Route ''/api'' (sub_Handle ''users'' (endpoint ''h'')))
                    (snd (NewMux (init_state max))))))
     (Some 2) = Inr ''/v1//api/'' \<and>
   registered_patterns
     (snd (projr (Route (fst (NewMux (init_state max))) ''/v1''
                    (sub_Route ''/api'' (sub_Handle ''users'' (endpoint ''h'')))
                    (snd (NewMux (init_state max))))))
     (fst (NewMux (init_state max))) = Inr [''/v1//api/users''] \<and>
   ''/v1//api/'' \<noteq> ''/v1/api/''"
  by (simp add: NewMux_init Route_def With_def deref_Mux_def make_slice_def mallocgc_def
      copy_slice_def write_array_def append_slice_def slice_contents_def nil_slice_def
      new_Mux_def update_Mux_def sub_Route_def sub_Handle_def Handle_def NewChain_def Then_def
      deref_chi_def update_chi_def chi_Handle_def chi_NewMux_def prefix_of_def
      registered_patterns_def zerobase_def Let_def)

end
